theory Spec2Isabelle
  imports Main
begin

unbundle bit_operations_syntax

section \<open>LSB-matching steganography: the model of \<^verbatim>\<open>stego.py\<close>\<close>

text \<open>
  Python integers are unbounded: channel values, message bits, the complexity, the
  threshold and the attempt factor are \<^typ>\<open>int\<close>; quantities that the source only
  ever builds from non-negative values by \<open>+\<close>, \<open>*\<close>, \<open>%\<close>, \<open>//\<close> and masking (the
  generator state, positions, counters, image sizes) are \<^typ>\<open>nat\<close>. A Python
  \<open>str\<close> is a sequence of code points, so a password is the list of its code
  points (\<open>ord\<close> of each character). Every exception the source can raise is a value
  of \<open>error\<close>.
\<close>

datatype error =
    CapacityExceeded   \<comment> \<open>the \<open>ValueError\<close> of the capacity guard\<close>
  | BudgetExhausted    \<comment> \<open>the \<open>RuntimeError\<close> after the scheduling loop\<close>
  | IndexError         \<comment> \<open>pixel access outside the image, tuple index out of range\<close>
  | ZeroDivisionError

subsection \<open>Seed derivation and the generator\<close>

text \<open>
  \<^verbatim>\<open>for i, ch in enumerate(password): seed ^= (ord(ch) << (i % 24)); seed &= 0xFFFFFFFF\<close>
\<close>

fun seed_loop :: "nat \<Rightarrow> nat \<Rightarrow> nat list \<Rightarrow> nat" where
  "seed_loop seed i [] = seed"
| "seed_loop seed i (ch # rest) =
     seed_loop ((seed XOR push_bit (i mod 24) ch) AND 0xFFFFFFFF) (Suc i) rest"

definition derive_seed_from_password :: "nat list \<Rightarrow> nat" where
  "derive_seed_from_password password =
     (let seed = seed_loop 0 0 password in if seed \<noteq> 0 then seed else 0xDEADBEEF)"

text \<open>
  The derivation as the specification words it: the accumulator after the character
  at index \<open>i\<close> is the previous one XORed with the code point shifted left by
  \<open>i mod 24\<close>, masked to 32 bits; the fallback replaces a zero accumulator.
\<close>

definition spec_accumulator :: "nat list \<Rightarrow> nat" where
  "spec_accumulator password =
     foldl (\<lambda>acc (i, ch). take_bit 32 (acc XOR ch * 2 ^ (i mod 24))) 0
       (zip [0..<length password] password)"

definition fallback_seed :: nat where
  "fallback_seed = 3735928559"

text \<open>
  \<open>SimplePRNG\<close>: the field \<open>state\<close> is the object's only attribute. \<open>draws\<close> is
  not in the source: it counts the calls of \<open>next_u32\<close> on this object, so that
  statements about how many draws a run makes can be written down.
\<close>

record SimplePRNG =
  state :: nat
  draws :: nat

definition new_prng :: "nat \<Rightarrow> SimplePRNG" where
  "new_prng seed = \<lparr>state = seed AND 0xFFFFFFFF, draws = 0\<rparr>"

definition next_u32 :: "SimplePRNG \<Rightarrow> nat \<times> SimplePRNG" where
  "next_u32 g =
     (let s = (1103515245 * state g + 12345) AND 0xFFFFFFFF
      in (s, \<lparr>state = s, draws = Suc (draws g)\<rparr>))"

subsection \<open>Bits and bytes\<close>

text \<open>
  \<^verbatim>\<open>for b in data: for i in range(7, -1, -1): bits.append((b >> i) & 1)\<close>
\<close>

definition byte_bits :: "int \<Rightarrow> int list" where
  "byte_bits b = map (\<lambda>i. drop_bit i b AND 1) [7, 6, 5, 4, 3, 2, 1, 0]"

fun bytes_to_bits :: "int list \<Rightarrow> int list" where
  "bytes_to_bits [] = []"
| "bytes_to_bits (b # rest) = byte_bits b @ bytes_to_bits rest"

text \<open>\<^verbatim>\<open>while len(padded) % 8 != 0: padded.append(0)\<close>\<close>

function pad_loop :: "int list \<Rightarrow> int list" where
  "pad_loop padded =
     (if length padded mod 8 \<noteq> 0 then pad_loop (padded @ [0]) else padded)"
  by pat_completeness auto
termination
proof (relation "measure (\<lambda>padded. (8 - length padded mod 8) mod 8)")
  show "wf (measure (\<lambda>padded::int list. (8 - length padded mod 8) mod 8))" by simp
next
  fix padded :: "int list"
  assume a: "length padded mod 8 \<noteq> 0"
  define m where "m = length padded mod 8"
  have m: "m < 8" "m \<noteq> 0" using a by (simp_all add: m_def)
  have "Suc (length padded) mod 8 = (if m = 7 then 0 else Suc m)"
    by (simp add: mod_Suc m_def)
  then have "(8 - Suc (length padded) mod 8) mod 8 < (8 - m) mod 8"
    using m by auto
  then have "(8 - Suc (length padded) mod 8) mod 8 < (8 - length padded mod 8) mod 8"
    by (simp only: m_def)
  then show "(padded @ [0], padded) \<in> measure (\<lambda>padded. (8 - length padded mod 8) mod 8)"
    by (simp only: in_measure length_append list.size) simp
qed

declare pad_loop.simps [simp del]

text \<open>\<^verbatim>\<open>byte = 0; for j in range(8): byte = (byte << 1) | (padded[i + j] & 1)\<close>\<close>

definition pack_byte :: "int list \<Rightarrow> int" where
  "pack_byte grp = foldl (\<lambda>byte bit. push_bit 1 byte OR (bit AND 1)) 0 grp"

text \<open>
  \<^verbatim>\<open>for i in range(0, len(padded), 8)\<close>: the length of \<open>padded\<close> is a multiple
  of 8, so \<open>padded[i + j]\<close> is always in range and each round consumes 8 bits.
\<close>

function pack_loop :: "int list \<Rightarrow> int list" where
  "pack_loop padded =
     (if padded = [] then [] else pack_byte (take 8 padded) # pack_loop (drop 8 padded))"
  by pat_completeness auto
termination
  by (relation "measure length") auto

declare pack_loop.simps [simp del]

definition bits_to_bytes :: "int list \<Rightarrow> int list" where
  "bits_to_bytes bits = pack_loop (pad_loop bits)"

text \<open>A Python \<open>bytes\<close> object holds integers in \<open>range(256)\<close>.\<close>

definition is_bytes :: "int list \<Rightarrow> bool" where
  "is_bytes d = list_all (\<lambda>b. 0 \<le> b \<and> b < 256) d"

subsection \<open>The pixel buffer\<close>

text \<open>
  \<open>pixels = img.load()\<close> is PIL's pixel access object. \<open>pixels[x, y]\<close> is a tuple of
  channel values for a multi-band image and a plain integer for a single-band one;
  the source branches on that with \<open>isinstance\<close>. The buffer is kept row by row:
  pixel \<open>(x, y)\<close> is element \<open>y * width + x\<close> of \<open>data\<close>. PIL counts a negative
  index from the far edge and raises \<open>IndexError\<close> for a coordinate outside the
  image, on reading and on writing. The source writes \<open>tuple(pix_list)\<close> back, and
  so does \<open>putpixel\<close> here; what PIL makes of a 1-tuple written to a single-band
  buffer is outside the source, and \<open>load_image\<close> never delivers such a buffer.
\<close>

datatype pixel = Scalar int | Tuple "int list"

record image =
  width :: nat
  height :: nat
  data :: "pixel list"

definition pixel_offset :: "image \<Rightarrow> int \<Rightarrow> int \<Rightarrow> nat option" where
  "pixel_offset img x y =
     (let x' = (if x < 0 then int (width img) + x else x);
          y' = (if y < 0 then int (height img) + y else y)
      in if 0 \<le> x' \<and> x' < int (width img) \<and> 0 \<le> y' \<and> y' < int (height img)
         then Some (nat y' * width img + nat x') else None)"

definition getpixel :: "image \<Rightarrow> int \<Rightarrow> int \<Rightarrow> error + pixel" where
  "getpixel img x y =
     (case pixel_offset img x y of
        None \<Rightarrow> Inl IndexError
      | Some k \<Rightarrow> Inr (data img ! k))"

definition putpixel :: "image \<Rightarrow> int \<Rightarrow> int \<Rightarrow> pixel \<Rightarrow> error + image" where
  "putpixel img x y p =
     (case pixel_offset img x y of
        None \<Rightarrow> Inl IndexError
      | Some k \<Rightarrow> Inr (img\<lparr>data := (data img)[k := p]\<rparr>))"

text \<open>\<open>t[c]\<close> on a tuple, for an index \<open>c \<ge> 0\<close>.\<close>

definition tuple_get :: "int list \<Rightarrow> nat \<Rightarrow> error + int" where
  "tuple_get t c = (if c < length t then Inr (t ! c) else Inl IndexError)"

text \<open>
  What \<open>load_image\<close> hands to the core: a non-empty image in mode RGB or RGBA (modes
  L and P are converted to RGB, every other mode is refused), so every pixel is a
  3-tuple, or every pixel is a 4-tuple.
\<close>

definition is_tuple_of :: "nat \<Rightarrow> pixel \<Rightarrow> bool" where
  "is_tuple_of n p = (case p of Scalar v \<Rightarrow> False | Tuple t \<Rightarrow> length t = n)"

definition loaded_image :: "image \<Rightarrow> bool" where
  "loaded_image img \<longleftrightarrow>
     0 < width img \<and> 0 < height img \<and> length (data img) = width img * height img \<and>
     (list_all (is_tuple_of 3) (data img) \<or> list_all (is_tuple_of 4) (data img))"

text \<open>\<^verbatim>\<open>pix_list = list(pix) if isinstance(pix, (tuple, list)) else [pix]\<close>\<close>

definition channels :: "pixel \<Rightarrow> int list" where
  "channels p = (case p of Scalar v \<Rightarrow> [v] | Tuple t \<Rightarrow> t)"

text \<open>Every channel of every pixel is an 8-bit value.\<close>

definition in_range :: "image \<Rightarrow> bool" where
  "in_range img = list_all (\<lambda>p. list_all (\<lambda>v. 0 \<le> v \<and> v \<le> 255) (channels p)) (data img)"

subsection \<open>Local complexity\<close>

definition clamp :: "int \<Rightarrow> int \<Rightarrow> int \<Rightarrow> int" where
  "clamp v lo hi = max lo (min v hi)"

text \<open>\<^verbatim>\<open>if not isinstance(center, (tuple, list)): center = (center, center, center)\<close>\<close>

definition as_triple :: "pixel \<Rightarrow> int list" where
  "as_triple p = (case p of Scalar v \<Rightarrow> [v, v, v] | Tuple t \<Rightarrow> t)"

text \<open>\<^verbatim>\<open>for c in range(3): complexity += abs(int(nb[c]) - int(center[c]))\<close>\<close>

fun channel_loop :: "int list \<Rightarrow> int list \<Rightarrow> nat list \<Rightarrow> int \<Rightarrow> error + int" where
  "channel_loop nb center [] complexity = Inr complexity"
| "channel_loop nb center (c # cs) complexity =
     (case tuple_get nb c of
        Inl e \<Rightarrow> Inl e
      | Inr a \<Rightarrow>
          (case tuple_get center c of
             Inl e \<Rightarrow> Inl e
           | Inr b \<Rightarrow> channel_loop nb center cs (complexity + \<bar>a - b\<bar>)))"

text \<open>\<^verbatim>\<open>for dx, dy in [(-1, 0), (1, 0), (0, -1), (0, 1)]: nb = pixels[cx + dx, cy + dy]\<close>\<close>

fun neighbour_loop ::
  "image \<Rightarrow> int \<Rightarrow> int \<Rightarrow> int list \<Rightarrow> (int \<times> int) list \<Rightarrow> int \<Rightarrow> error + int" where
  "neighbour_loop img cx cy center [] complexity = Inr complexity"
| "neighbour_loop img cx cy center ((dx, dy) # rest) complexity =
     (case getpixel img (cx + dx) (cy + dy) of
        Inl e \<Rightarrow> Inl e
      | Inr nb \<Rightarrow>
          (case channel_loop (as_triple nb) center [0, 1, 2] complexity of
             Inl e \<Rightarrow> Inl e
           | Inr complexity' \<Rightarrow> neighbour_loop img cx cy center rest complexity'))"

definition compute_local_complexity ::
  "image \<Rightarrow> int \<Rightarrow> int \<Rightarrow> int \<Rightarrow> int \<Rightarrow> error + int" where
  "compute_local_complexity img x y w h =
     (let cx = clamp x 1 (w - 2);
          cy = clamp y 1 (h - 2)
      in case getpixel img cx cy of
           Inl e \<Rightarrow> Inl e
         | Inr center \<Rightarrow>
             neighbour_loop img cx cy (as_triple center) [(-1, 0), (1, 0), (0, -1), (0, 1)] 0)"

subsection \<open>Capacity\<close>

text \<open>
  \<^verbatim>\<open>num_channels = len(sample) if isinstance(sample, (tuple, list)) else 1\<close>,
  \<^verbatim>\<open>usable_channels = 3 if num_channels >= 3 else num_channels\<close>.
\<close>

definition num_channels :: "pixel \<Rightarrow> nat" where
  "num_channels sample = (case sample of Scalar v \<Rightarrow> 1 | Tuple t \<Rightarrow> length t)"

definition usable_channels :: "pixel \<Rightarrow> nat" where
  "usable_channels sample = (if 3 \<le> num_channels sample then 3 else num_channels sample)"

definition total_capacity_bits :: "image \<Rightarrow> pixel \<Rightarrow> nat" where
  "total_capacity_bits img sample = (width img * height img) * usable_channels sample"

text \<open>The capacity of an image whose pixel \<open>(0, 0)\<close> exists (0 for an empty one).\<close>

definition capacity :: "image \<Rightarrow> nat" where
  "capacity img =
     (case getpixel img 0 0 of Inl e \<Rightarrow> 0 | Inr sample \<Rightarrow> total_capacity_bits img sample)"

subsection \<open>The scheduling loops\<close>

text \<open>
  The locals of one call that change in the loop. \<open>used_positions\<close>, \<open>attempts\<close>,
  \<open>prng\<close> and the buffer are common to both paths; the embed path counts in
  \<open>embedded\<close>, the extract path collects \<open>extracted\<close>.
\<close>

record loop_state =
  pixels :: image
  prng :: SimplePRNG
  used_positions :: "nat set"
  attempts :: nat

record embed_state = loop_state +
  embedded :: nat

record extract_state = loop_state +
  extracted :: "int list"

text \<open>
  Lines 136 to 143: the new value of a channel whose least significant bit differs
  from the target bit. Only the last branch draws from the generator.
\<close>

definition lsb_match :: "int \<Rightarrow> SimplePRNG \<Rightarrow> int \<times> SimplePRNG" where
  "lsb_match current g =
     (if current = 0 then (1, g)
      else if current = 255 then (254, g)
      else (let (r, g') = next_u32 g
            in (current + (if r AND 1 \<noteq> 0 then 1 else -1), g')))"

text \<open>
  One round of the embed loop (lines 110 to 152), for the message, the threshold,
  \<open>usable_channels\<close> and \<open>total_capacity_bits\<close> of the call: \<open>decompose\<close> is
  lines 115 to 118, \<open>embed_accept\<close> lines 128 to 152. \<open>Inr\<close> is the state at
  the end of the round (after \<open>continue\<close> or after the last statement), \<open>Inl\<close> the
  exception raised with the state at that moment. The width and height of the
  buffer never change, so they are read from it. Of the divisions and remainders
  \<open>% total_capacity_bits\<close> comes first, and \<open>usable_channels\<close> and \<open>width\<close> are
  factors of \<open>total_capacity_bits\<close>.
\<close>

definition decompose :: "nat \<Rightarrow> nat \<Rightarrow> nat \<Rightarrow> nat \<times> nat \<times> nat" where
  "decompose pos usable w =
     (let pixel_index = pos div usable;
          channel_index = pos mod usable;
          x = pixel_index mod w;
          y = pixel_index div w
      in (x, y, channel_index))"

definition embed_accept ::
  "int list \<Rightarrow> embed_state \<Rightarrow> nat \<Rightarrow> nat \<Rightarrow> nat \<Rightarrow> nat \<Rightarrow>
   (error \<times> embed_state) + embed_state" where
  "embed_accept message_bits s1 pos x y channel_index =
     (case getpixel (pixels s1) (int x) (int y) of
        Inl e \<Rightarrow> Inl (e, s1)
      | Inr pix \<Rightarrow>
         (let pix_list = channels pix in
          (case tuple_get pix_list channel_index of
             Inl e \<Rightarrow> Inl (e, s1)
           | Inr current \<Rightarrow>
              (case tuple_get message_bits (embedded s1) of
                 Inl e \<Rightarrow> Inl (e, s1)
               | Inr target_bit \<Rightarrow>
                  (if current AND 1 \<noteq> target_bit then
                     (let (new_value, g') = lsb_match current (prng s1);
                          s2 = s1\<lparr>prng := g'\<rparr>
                      in (case putpixel (pixels s1) (int x) (int y)
                                 (Tuple (pix_list[channel_index := new_value])) of
                            Inl e \<Rightarrow> Inl (e, s2)
                          | Inr img' \<Rightarrow>
                              Inr (s2\<lparr>pixels := img',
                                      used_positions := insert pos (used_positions s1),
                                      embedded := embedded s1 + 1\<rparr>)))
                   else
                     Inr (s1\<lparr>used_positions := insert pos (used_positions s1),
                             embedded := embedded s1 + 1\<rparr>))))))"

definition embed_step ::
  "int list \<Rightarrow> int \<Rightarrow> nat \<Rightarrow> nat \<Rightarrow> embed_state \<Rightarrow> (error \<times> embed_state) + embed_state" where
  "embed_step message_bits complexity_threshold usable cap s =
     (let (pos_rand, g) = next_u32 (prng s);
          s1 = s\<lparr>attempts := attempts s + 1, prng := g\<rparr>;
          w = width (pixels s);
          h = height (pixels s)
      in (if cap = 0 \<or> usable = 0 \<or> w = 0 then Inl (ZeroDivisionError, s1)
          else
            (let pos = pos_rand mod cap;
                 (x, y, channel_index) = decompose pos usable w
             in (case compute_local_complexity (pixels s) (int x) (int y) (int w) (int h) of
                   Inl e \<Rightarrow> Inl (e, s1)
                 | Inr complexity \<Rightarrow>
                    (if complexity < complexity_threshold then Inr s1
                     else if pos \<in> used_positions s then Inr s1
                     else embed_accept message_bits s1 pos x y channel_index)))))"

text \<open>
  \<^verbatim>\<open>while embedded < len(message_bits) and attempts < max_attempts\<close>
\<close>

function embed_loop ::
  "int list \<Rightarrow> int \<Rightarrow> nat \<Rightarrow> nat \<Rightarrow> int \<Rightarrow> embed_state \<Rightarrow> (error \<times> embed_state) + embed_state" where
  "embed_loop message_bits complexity_threshold usable cap max_attempts s =
     (if embedded s < length message_bits \<and> int (attempts s) < max_attempts then
        (case embed_step message_bits complexity_threshold usable cap s of
           Inl failure \<Rightarrow> Inl failure
         | Inr s' \<Rightarrow> embed_loop message_bits complexity_threshold usable cap max_attempts s')
      else Inr s)"
  by pat_completeness auto
termination
proof (relation "measure (\<lambda>(message_bits, complexity_threshold, usable, cap, max_attempts, s).
    nat (max_attempts - int (attempts s)))")
  show "wf (measure (\<lambda>(message_bits :: int list, complexity_threshold :: int, usable :: nat,
      cap :: nat, max_attempts, s :: embed_state). nat (max_attempts - int (attempts s))))"
    by simp
next
  fix message_bits complexity_threshold usable cap max_attempts and s s' :: embed_state
  assume c: "embedded s < length message_bits \<and> int (attempts s) < max_attempts"
    and st: "embed_step message_bits complexity_threshold usable cap s = Inr s'"
  have "attempts s' = attempts s + 1"
    using st
    by (auto simp: embed_step_def embed_accept_def Let_def split_def
        split: if_splits sum.splits)
  then show "((message_bits, complexity_threshold, usable, cap, max_attempts, s'),
      (message_bits, complexity_threshold, usable, cap, max_attempts, s))
    \<in> measure (\<lambda>(message_bits, complexity_threshold, usable, cap, max_attempts, s).
        nat (max_attempts - int (attempts s)))"
    using c by simp
qed

declare embed_loop.simps [simp del]

text \<open>
  The outcome of a call: the exception it raised, if any; the buffer as the call left
  it; how often \<open>next_u32\<close> was called; the final \<open>attempts\<close> and \<open>used_positions\<close>.
\<close>

record run_result =
  outcome :: "error option"
  buffer :: image
  n_draws :: nat
  n_attempts :: nat
  positions :: "nat set"

record embed_result = run_result +
  n_embedded :: nat

record extract_result = run_result +
  returned :: "int list"

definition embed_report :: "error option \<Rightarrow> embed_state \<Rightarrow> embed_result" where
  "embed_report e s =
     \<lparr>outcome = e, buffer = pixels s, n_draws = draws (prng s), n_attempts = attempts s,
      positions = used_positions s, n_embedded = embedded s\<rparr>"

text \<open>
  \<open>embed_message_bits\<close>, from the loaded pixel buffer on: \<open>load_image\<close> before and
  \<open>img.save\<close> after are the image library's; a call that raises nothing
  (\<open>outcome = None\<close>) saves \<open>buffer\<close>. \<open>embed_refused\<close> is a call that raises
  before the generator exists (lines 90 to 99), \<open>embed_start\<close> the locals of lines
  101 to 107, \<open>embed_finish\<close> lines 154 to 164.
\<close>

definition embed_refused :: "error \<Rightarrow> image \<Rightarrow> embed_result" where
  "embed_refused e img =
     \<lparr>outcome = Some e, buffer = img, n_draws = 0, n_attempts = 0, positions = {},
      n_embedded = 0\<rparr>"

definition embed_start :: "image \<Rightarrow> nat list \<Rightarrow> embed_state" where
  "embed_start img password =
     \<lparr>pixels = img, prng = new_prng (derive_seed_from_password password),
      used_positions = {}, attempts = 0, embedded = 0\<rparr>"

definition embed_finish ::
  "int list \<Rightarrow> (error \<times> embed_state) + embed_state \<Rightarrow> embed_result" where
  "embed_finish message_bits r =
     (case r of
        Inl (e, s) \<Rightarrow> embed_report (Some e) s
      | Inr s \<Rightarrow>
         (if embedded s < length message_bits then embed_report (Some BudgetExhausted) s
          else embed_report None s))"

definition embed_message_bits ::
  "image \<Rightarrow> int list \<Rightarrow> nat list \<Rightarrow> int \<Rightarrow> int \<Rightarrow> embed_result" where
  "embed_message_bits img message_bits password complexity_threshold max_attempt_factor =
     (case getpixel img 0 0 of
        Inl e \<Rightarrow> embed_refused e img
      | Inr sample \<Rightarrow>
         (let usable = usable_channels sample;
              cap = total_capacity_bits img sample
          in (if length message_bits > cap then embed_refused CapacityExceeded img
              else
                embed_finish message_bits
                  (embed_loop message_bits complexity_threshold usable cap
                     (int cap * max_attempt_factor) (embed_start img password)))))"

text \<open>
  One round of the extract loop (lines 203 to 220); \<open>extract_accept\<close> is lines 216
  to 220.
\<close>

definition extract_accept ::
  "extract_state \<Rightarrow> nat \<Rightarrow> nat \<Rightarrow> nat \<Rightarrow> nat \<Rightarrow> (error \<times> extract_state) + extract_state" where
  "extract_accept s1 pos x y channel_index =
     (case getpixel (pixels s1) (int x) (int y) of
        Inl e \<Rightarrow> Inl (e, s1)
      | Inr pix \<Rightarrow>
         (let pix_list = channels pix in
          (case tuple_get pix_list channel_index of
             Inl e \<Rightarrow> Inl (e, s1)
           | Inr v \<Rightarrow>
               Inr (s1\<lparr>extracted := extracted s1 @ [v AND 1],
                       used_positions := insert pos (used_positions s1)\<rparr>))))"

definition extract_step ::
  "int \<Rightarrow> nat \<Rightarrow> nat \<Rightarrow> extract_state \<Rightarrow> (error \<times> extract_state) + extract_state" where
  "extract_step complexity_threshold usable cap s =
     (let (pos_rand, g) = next_u32 (prng s);
          s1 = s\<lparr>attempts := attempts s + 1, prng := g\<rparr>;
          w = width (pixels s);
          h = height (pixels s)
      in (if cap = 0 \<or> usable = 0 \<or> w = 0 then Inl (ZeroDivisionError, s1)
          else
            (let pos = pos_rand mod cap;
                 (x, y, channel_index) = decompose pos usable w
             in (case compute_local_complexity (pixels s) (int x) (int y) (int w) (int h) of
                   Inl e \<Rightarrow> Inl (e, s1)
                 | Inr complexity \<Rightarrow>
                    (if complexity < complexity_threshold then Inr s1
                     else if pos \<in> used_positions s then Inr s1
                     else extract_accept s1 pos x y channel_index)))))"

text \<open>
  \<^verbatim>\<open>while len(extracted) < num_bits and attempts < max_attempts\<close>
\<close>

function extract_loop ::
  "int \<Rightarrow> int \<Rightarrow> nat \<Rightarrow> nat \<Rightarrow> int \<Rightarrow> extract_state \<Rightarrow> (error \<times> extract_state) + extract_state" where
  "extract_loop num_bits complexity_threshold usable cap max_attempts s =
     (if int (length (extracted s)) < num_bits \<and> int (attempts s) < max_attempts then
        (case extract_step complexity_threshold usable cap s of
           Inl failure \<Rightarrow> Inl failure
         | Inr s' \<Rightarrow> extract_loop num_bits complexity_threshold usable cap max_attempts s')
      else Inr s)"
  by pat_completeness auto
termination
proof (relation "measure (\<lambda>(num_bits, complexity_threshold, usable, cap, max_attempts, s).
    nat (max_attempts - int (attempts s)))")
  show "wf (measure (\<lambda>(num_bits :: int, complexity_threshold :: int, usable :: nat,
      cap :: nat, max_attempts, s :: extract_state). nat (max_attempts - int (attempts s))))"
    by simp
next
  fix num_bits complexity_threshold usable cap max_attempts and s s' :: extract_state
  assume c: "int (length (extracted s)) < num_bits \<and> int (attempts s) < max_attempts"
    and st: "extract_step complexity_threshold usable cap s = Inr s'"
  have "attempts s' = attempts s + 1"
    using st
    by (auto simp: extract_step_def extract_accept_def Let_def split_def
        split: if_splits sum.splits)
  then show "((num_bits, complexity_threshold, usable, cap, max_attempts, s'),
      (num_bits, complexity_threshold, usable, cap, max_attempts, s))
    \<in> measure (\<lambda>(num_bits, complexity_threshold, usable, cap, max_attempts, s).
        nat (max_attempts - int (attempts s)))"
    using c by simp
qed

declare extract_loop.simps [simp del]

definition extract_report :: "error option \<Rightarrow> extract_state \<Rightarrow> extract_result" where
  "extract_report e s =
     \<lparr>outcome = e, buffer = pixels s, n_draws = draws (prng s), n_attempts = attempts s,
      positions = used_positions s, returned = extracted s\<rparr>"

text \<open>
  \<open>extract_message_bits\<close>, from the loaded pixel buffer on. When \<open>outcome = None\<close>
  the call returns the list \<open>returned\<close>; otherwise \<open>returned\<close> is what had been
  collected when the exception was raised.
\<close>

definition extract_refused :: "error \<Rightarrow> image \<Rightarrow> extract_result" where
  "extract_refused e img =
     \<lparr>outcome = Some e, buffer = img, n_draws = 0, n_attempts = 0, positions = {},
      returned = []\<rparr>"

definition extract_start :: "image \<Rightarrow> nat list \<Rightarrow> extract_state" where
  "extract_start img password =
     \<lparr>pixels = img, prng = new_prng (derive_seed_from_password password),
      used_positions = {}, attempts = 0, extracted = []\<rparr>"

definition extract_finish ::
  "int \<Rightarrow> (error \<times> extract_state) + extract_state \<Rightarrow> extract_result" where
  "extract_finish num_bits r =
     (case r of
        Inl (e, s) \<Rightarrow> extract_report (Some e) s
      | Inr s \<Rightarrow>
         (if int (length (extracted s)) < num_bits
          then extract_report (Some BudgetExhausted) s
          else extract_report None s))"

definition extract_message_bits ::
  "image \<Rightarrow> int \<Rightarrow> nat list \<Rightarrow> int \<Rightarrow> int \<Rightarrow> extract_result" where
  "extract_message_bits img num_bits password complexity_threshold max_attempt_factor =
     (case getpixel img 0 0 of
        Inl e \<Rightarrow> extract_refused e img
      | Inr sample \<Rightarrow>
         (let usable = usable_channels sample;
              cap = total_capacity_bits img sample
          in (if num_bits > int cap then extract_refused CapacityExceeded img
              else
                extract_finish num_bits
                  (extract_loop num_bits complexity_threshold usable cap
                     (int cap * max_attempt_factor) (extract_start img password)))))"

subsection \<open>Vocabulary of the theorems\<close>

text \<open>
  Channel \<open>c\<close> of the pixel at offset \<open>k\<close> of the buffer, and the buffer with that one
  channel replaced. Position \<open>pos\<close> addresses pixel \<open>pos div usable\<close>, channel
  \<open>pos mod usable\<close>.
\<close>

definition channel_value :: "image \<Rightarrow> nat \<Rightarrow> nat \<Rightarrow> int" where
  "channel_value img k c = channels (data img ! k) ! c"

definition set_channel :: "image \<Rightarrow> nat \<Rightarrow> nat \<Rightarrow> int \<Rightarrow> image" where
  "set_channel img k c v =
     img\<lparr>data := (data img)[k := Tuple ((channels (data img ! k))[c := v])]\<rparr>"

text \<open>A uniformly flat image: every pixel equals the first one.\<close>

definition flat_image :: "image \<Rightarrow> bool" where
  "flat_image img = list_all (\<lambda>p. p = data img ! 0) (data img)"

text \<open>
  The effect of lines 128 to 152 (\<open>embed_commit\<close>) on a buffer whose pixels are tuples
  of at least three channels, where no index can be out of range, and the state after
  \<open>attempts += 1\<close> and the position draw (\<open>drawn\<close>).
\<close>

definition embed_commit :: "int list \<Rightarrow> embed_state \<Rightarrow> nat \<Rightarrow> embed_state" where
  "embed_commit message_bits s1 pos =
     (let k = pos div 3;
          c = pos mod 3;
          v = channel_value (pixels s1) k c;
          s2 = s1\<lparr>used_positions := insert pos (used_positions s1),
                  embedded := embedded s1 + 1\<rparr>
      in if v AND 1 \<noteq> message_bits ! embedded s1
         then s2\<lparr>prng := snd (lsb_match v (prng s1)),
                 pixels := set_channel (pixels s1) k c (fst (lsb_match v (prng s1)))\<rparr>
         else s2)"


definition drawn :: "('a loop_state_scheme) \<Rightarrow> ('a loop_state_scheme)" where
  "drawn s = s\<lparr>attempts := attempts s + 1, prng := snd (next_u32 (prng s))\<rparr>"

definition drawn_position :: "('a loop_state_scheme) \<Rightarrow> nat \<Rightarrow> nat" where
  "drawn_position s cap = fst (next_u32 (prng s)) mod cap"

text \<open>The complexity the round computes for a position (lines 115 to 121).\<close>

definition position_complexity :: "image \<Rightarrow> nat \<Rightarrow> nat \<Rightarrow> error + int" where
  "position_complexity img usable pos =
     (let (x, y, channel_index) = decompose pos usable (width img)
      in compute_local_complexity img (int x) (int y) (int (width img)) (int (height img)))"

text \<open>The invariant of the extract loop, and what it gives for a whole call.\<close>

definition extract_inv :: "image \<Rightarrow> nat \<Rightarrow> int \<Rightarrow> extract_state \<Rightarrow> bool" where
  "extract_inv img u T s \<longleftrightarrow>
     pixels s = img \<and> draws (prng s) = attempts s \<and> finite (used_positions s) \<and>
     card (used_positions s) = length (extracted s) \<and>
     (\<forall>pos \<in> used_positions s. \<exists>c. position_complexity img u pos = Inr c \<and> T \<le> c)"

definition embed_inv :: "embed_state \<Rightarrow> bool" where
  "embed_inv s \<longleftrightarrow> finite (used_positions s) \<and> card (used_positions s) = embedded s"

text \<open>
  For a buffer with three usable channels: the position the next round of a state
  draws, the current value of the channel that position addresses, and the buffer
  with that channel replaced.
\<close>

definition round_position :: "'a loop_state_scheme \<Rightarrow> nat" where
  "round_position s = drawn_position s (capacity (pixels s))"

definition round_channel :: "'a loop_state_scheme \<Rightarrow> int" where
  "round_channel s =
     channel_value (pixels s) (round_position s div 3) (round_position s mod 3)"

definition write_round_channel :: "'a loop_state_scheme \<Rightarrow> int \<Rightarrow> image" where
  "write_round_channel s v =
     set_channel (pixels s) (round_position s div 3) (round_position s mod 3) v"

text \<open>
  How one channel may differ between the input buffer and the buffer a call leaves:
  not at all, or by the one step of LSB matching (0 to 1, 255 to 254, any other value
  up or down by one).
\<close>

definition lsb_moved :: "int \<Rightarrow> int \<Rightarrow> bool" where
  "lsb_moved old new \<longleftrightarrow>
     (old = 0 \<and> new = 1) \<or> (old = 255 \<and> new = 254) \<or>
     (old \<noteq> 0 \<and> old \<noteq> 255 \<and> (new = old + 1 \<or> new = old - 1))"

definition embed_frame :: "image \<Rightarrow> embed_state \<Rightarrow> bool" where
  "embed_frame img s \<longleftrightarrow>
     loaded_image (pixels s) \<and> width (pixels s) = width img \<and> height (pixels s) = height img \<and>
     (\<forall>k c. k < width img * height img \<longrightarrow>
        length (channels (data (pixels s) ! k)) = length (channels (data img ! k)) \<and>
        (if c < 3 \<and> k * 3 + c \<in> used_positions s
         then channel_value (pixels s) k c = channel_value img k c \<or>
              lsb_moved (channel_value img k c) (channel_value (pixels s) k c)
         else channel_value (pixels s) k c = channel_value img k c))"

subsection \<open>Example buffers\<close>

text \<open>
  A 3 by 3 RGB image of zeros, a 3 by 3 RGB image with every channel 7, a 1 by 6
  RGB image of zeros, and the 16 bits of the message \<open>"hi"\<close>.
\<close>

definition zero3 :: image where
  "zero3 = \<lparr>width = 3, height = 3, data =
     [Tuple [0, 0, 0], Tuple [0, 0, 0], Tuple [0, 0, 0],
      Tuple [0, 0, 0], Tuple [0, 0, 0], Tuple [0, 0, 0],
      Tuple [0, 0, 0], Tuple [0, 0, 0], Tuple [0, 0, 0]]\<rparr>"

definition flat3 :: image where
  "flat3 = \<lparr>width = 3, height = 3, data =
     [Tuple [7, 7, 7], Tuple [7, 7, 7], Tuple [7, 7, 7],
      Tuple [7, 7, 7], Tuple [7, 7, 7], Tuple [7, 7, 7],
      Tuple [7, 7, 7], Tuple [7, 7, 7], Tuple [7, 7, 7]]\<rparr>"

definition narrow6 :: image where
  "narrow6 = \<lparr>width = 1, height = 6, data =
     [Tuple [0, 0, 0], Tuple [0, 0, 0], Tuple [0, 0, 0],
      Tuple [0, 0, 0], Tuple [0, 0, 0], Tuple [0, 0, 0]]\<rparr>"

definition hi_bits :: "int list" where
  "hi_bits = bytes_to_bits [104, 105]"

section \<open>Theorems\<close>

subsection \<open>Codec\<close>

lemma shl_or: "push_bit 1 (x::int) OR (y AND 1) = 2 * x + y mod 2"
  by (subst or_int_rec) (simp add: push_bit_eq_mult and_one_eq mod2_eq_if)

lemma and1_mod2: "((x::int) AND 1) mod 2 = x mod 2"
  by (simp add: and_one_eq)

lemma halve_step: "2 * ((b::int) div (2 * d)) + (b div d) mod 2 = b div d" if "0 < d"
proof -
  have "b div (2 * d) = (b div d) div 2"
    using that by (simp add: zdiv_zmult2_eq mult.commute)
  then show ?thesis by simp
qed

lemma pack_byte_bits:
  assumes "0 \<le> b" "b < 256"
  shows "pack_byte (byte_bits b) = b"
proof -
  have z: "b div 256 = 0" using assms by simp
  have s7: "2 * 0 + (b div 128) mod 2 = b div 128" using halve_step [of 128 b] z by simp
  have s6: "2 * (b div 128) + (b div 64) mod 2 = b div 64" using halve_step [of 64 b] by simp
  have s5: "2 * (b div 64) + (b div 32) mod 2 = b div 32" using halve_step [of 32 b] by simp
  have s4: "2 * (b div 32) + (b div 16) mod 2 = b div 16" using halve_step [of 16 b] by simp
  have s3: "2 * (b div 16) + (b div 8) mod 2 = b div 8" using halve_step [of 8 b] by simp
  have s2: "2 * (b div 8) + (b div 4) mod 2 = b div 4" using halve_step [of 4 b] by simp
  have s1: "2 * (b div 4) + (b div 2) mod 2 = b div 2" using halve_step [of 2 b] by simp
  have s0: "2 * (b div 2) + b mod 2 = b" by simp
  have d: "drop_bit 7 b = b div 128" "drop_bit 6 b = b div 64" "drop_bit 5 b = b div 32"
    "drop_bit 4 b = b div 16" "drop_bit 3 b = b div 8" "drop_bit 2 b = b div 4"
    "drop_bit 1 b = b div 2" "drop_bit 0 b = b"
    by (simp_all add: drop_bit_eq_div)
  show ?thesis
    by (simp only: pack_byte_def byte_bits_def list.map foldl_Cons foldl_Nil shl_or
        and1_mod2 d s7 s6 s5 s4 s3 s2 s1 s0)
qed

lemma length_byte_bits: "length (byte_bits b) = 8"
  by (simp add: byte_bits_def)

lemma length_bytes_to_bits: "length (bytes_to_bits d) = 8 * length d"
  by (induction d) (simp_all add: length_byte_bits)

lemma pad_loop_full: "length bits mod 8 = 0 \<Longrightarrow> pad_loop bits = bits"
  by (subst pad_loop.simps) simp

lemma pack_loop_Nil: "pack_loop [] = []"
  by (subst pack_loop.simps) simp

lemma pack_loop_bytes: "is_bytes d \<Longrightarrow> pack_loop (bytes_to_bits d) = d"
proof (induction d)
  case Nil
  show ?case by (simp add: pack_loop_Nil)
next
  case (Cons b d)
  have b: "0 \<le> b" "b < 256" and d: "is_bytes d"
    using Cons.prems by (simp_all add: is_bytes_def)
  have ne: "byte_bits b @ bytes_to_bits d \<noteq> []"
    by (simp add: byte_bits_def)
  have "pack_loop (byte_bits b @ bytes_to_bits d) =
      pack_byte (take 8 (byte_bits b @ bytes_to_bits d)) #
      pack_loop (drop 8 (byte_bits b @ bytes_to_bits d))"
    using ne by (subst pack_loop.simps) simp
  also have "\<dots> = pack_byte (byte_bits b) # pack_loop (bytes_to_bits d)"
    by (simp add: length_byte_bits)
  also have "\<dots> = b # d"
    using b d Cons.IH by (simp add: pack_byte_bits)
  finally show ?case by simp
qed

text \<open>
  C3. For every byte sequence \<open>d\<close> (a list of integers in \<open>range(256)\<close>),
  \<open>bytes_to_bits d\<close> has exactly \<open>8 * len(d)\<close> bits, the bits of each byte
  most significant first, and \<open>bits_to_bytes (bytes_to_bits d) = d\<close>; the padding
  of \<open>bits_to_bytes\<close> appends zero bits up to the next multiple of 8.
\<close>

theorem codec_round_trip:
  assumes "is_bytes d"
  shows "bits_to_bytes (bytes_to_bits d) = d
    \<and> length (bytes_to_bits d) = 8 * length d
    \<and> bytes_to_bits (b # d) =
           [drop_bit 7 b AND 1, drop_bit 6 b AND 1, drop_bit 5 b AND 1, drop_bit 4 b AND 1,
            drop_bit 3 b AND 1, drop_bit 2 b AND 1, drop_bit 1 b AND 1, drop_bit 0 b AND 1]
           @ bytes_to_bits d
    \<and> pad_loop bits = bits @ replicate ((8 - length bits mod 8) mod 8) 0"
proof -
  have c1: "bits_to_bytes (bytes_to_bits d) = d"
    using assms by (simp add: bits_to_bytes_def pad_loop_full length_bytes_to_bits pack_loop_bytes)
  have c2: "length (bytes_to_bits d) = 8 * length d"
    by (rule length_bytes_to_bits)
  have c3: "bytes_to_bits (b # d) =
           [drop_bit 7 b AND 1, drop_bit 6 b AND 1, drop_bit 5 b AND 1, drop_bit 4 b AND 1,
            drop_bit 3 b AND 1, drop_bit 2 b AND 1, drop_bit 1 b AND 1, drop_bit 0 b AND 1]
           @ bytes_to_bits d"
    by (simp add: byte_bits_def)
  have c4: "pad_loop bits = bits @ replicate ((8 - length bits mod 8) mod 8) 0"
  proof (induction bits rule: pad_loop.induct)
    case (1 padded)
    show ?case
    proof (cases "length padded mod 8 = 0")
      case True
      then show ?thesis by (simp add: pad_loop_full)
    next
      case False
      define m where "m = length padded mod 8"
      have m: "m < 8" "m \<noteq> 0" using False by (simp_all add: m_def)
      have sm: "Suc (length padded) mod 8 = (if m = 7 then 0 else Suc m)"
        by (simp add: mod_Suc m_def)
      have "(8 - m) mod 8 = Suc ((8 - Suc (length padded) mod 8) mod 8)"
        using m sm by auto
      then have r: "replicate ((8 - length padded mod 8) mod 8) (0::int) =
          0 # replicate ((8 - Suc (length padded) mod 8) mod 8) 0"
        by (simp add: m_def)
      have "pad_loop padded = pad_loop (padded @ [0])"
        using False by (subst pad_loop.simps) simp
      also have "\<dots> = (padded @ [0]) @ replicate ((8 - length (padded @ [0]) mod 8) mod 8) 0"
        using False by (rule "1.IH")
      also have "\<dots> = padded @ replicate ((8 - length padded mod 8) mod 8) 0"
        using r by simp
      finally show ?thesis .
    qed
  qed
  from c1 c2 c3 c4 show ?thesis by (intro conjI)
qed

theorem codec_round_trip_witness:
  "is_bytes [104, 105] \<and> bits_to_bytes (bytes_to_bits [104, 105]) = [104, 105]
   \<and> bytes_to_bits [104, 105] = [0, 1, 1, 0, 1, 0, 0, 0, 0, 1, 1, 0, 1, 0, 0, 1]"
proof -
  have h: "is_bytes [104, 105]" by (simp add: is_bytes_def)
  have "bytes_to_bits [104, 105] = [0, 1, 1, 0, 1, 0, 0, 0, 0, 1, 1, 0, 1, 0, 0, 1]"
    by (simp add: byte_bits_def drop_bit_eq_div and_one_eq)
  then show ?thesis using h codec_round_trip [OF h] by simp
qed

subsection \<open>Seed derivation\<close>

lemma mask32: "(x::nat) AND 4294967295 = take_bit 32 x"
proof -
  have "mask 32 = (4294967295::nat)" by (simp add: mask_eq_exp_minus_1)
  then show ?thesis by (simp add: take_bit_eq_mask)
qed

lemma seed_loop_foldl:
  "seed_loop seed i rest =
     foldl (\<lambda>acc (i, ch). take_bit 32 (acc XOR ch * 2 ^ (i mod 24))) seed
       (zip [i..<i + length rest] rest)"
proof (induction rest arbitrary: seed i)
  case Nil
  show ?case by simp
next
  case (Cons ch rest)
  have u: "[i..<i + length (ch # rest)] = i # [Suc i..<Suc i + length rest]"
    by (subst upt_rec) simp
  show ?case
    unfolding u by (simp add: Cons.IH mask32 push_bit_eq_mult)
qed

lemma accumulator_bound:
  "a < 2 ^ 32 \<Longrightarrow>
   foldl (\<lambda>acc (i, ch). take_bit 32 (acc XOR ch * 2 ^ (i mod 24))) a ps < (2 ^ 32 :: nat)"
proof (induction ps arbitrary: a)
  case Nil
  then show ?case by simp
next
  case (Cons p ps)
  have "take_bit 32 (a XOR snd p * 2 ^ (fst p mod 24)) < (2 ^ 32 :: nat)"
    by (simp add: take_bit_eq_mod)
  then show ?case
    using Cons.IH by (simp add: split_def)
qed

text \<open>
  C7. \<open>derive_seed_from_password\<close> is the function of the password alone that the
  specification describes: the XOR-accumulation of each code point shifted left by
  \<open>index mod 24\<close>, masked to 32 bits after every step; the result is that
  accumulator when it is not zero and the fallback constant \<open>0xDEADBEEF\<close>
  (non-zero) when it is zero. The seed is never zero and fits 32 bits; the password
  \<open>"x"\<close> (code point 120) gives 120 and the empty password gives the fallback.
\<close>

theorem seed_derivation:
  "derive_seed_from_password password =
     (if spec_accumulator password = 0 then fallback_seed else spec_accumulator password)
   \<and> fallback_seed \<noteq> 0
   \<and> derive_seed_from_password password \<noteq> 0
   \<and> derive_seed_from_password password < 2 ^ 32
   \<and> derive_seed_from_password [120] = 120
   \<and> derive_seed_from_password [] = fallback_seed"
proof -
  have acc: "seed_loop 0 0 password = spec_accumulator password"
    by (simp add: seed_loop_foldl spec_accumulator_def)
  have d: "derive_seed_from_password password =
     (if spec_accumulator password = 0 then fallback_seed else spec_accumulator password)"
    by (simp add: derive_seed_from_password_def acc fallback_seed_def)
  have f: "fallback_seed \<noteq> 0" by (simp add: fallback_seed_def)
  have nz: "derive_seed_from_password password \<noteq> 0"
    by (simp add: d fallback_seed_def)
  have "spec_accumulator password < 2 ^ 32"
    unfolding spec_accumulator_def by (rule accumulator_bound) simp
  then have lt: "derive_seed_from_password password < 2 ^ 32"
    by (simp add: d fallback_seed_def)
  have x: "derive_seed_from_password [120] = 120"
    by (simp add: derive_seed_from_password_def)
  have e: "derive_seed_from_password [] = fallback_seed"
    by (simp add: derive_seed_from_password_def fallback_seed_def)
  from d f nz lt x e show ?thesis by (intro conjI)
qed

subsection \<open>Pixel access and position decomposition\<close>

lemma next_u32_facts:
  "draws (snd (next_u32 g)) = Suc (draws g)"
  "state (snd (next_u32 g)) = fst (next_u32 g)"
  by (simp_all add: next_u32_def Let_def)

lemma getpixel_in_range:
  "x < width img \<Longrightarrow> y < height img \<Longrightarrow>
   getpixel img (int x) (int y) = Inr (data img ! (y * width img + x))"
  by (simp add: getpixel_def pixel_offset_def)

lemma putpixel_in_range:
  "x < width img \<Longrightarrow> y < height img \<Longrightarrow>
   putpixel img (int x) (int y) p = Inr (img\<lparr>data := (data img)[y * width img + x := p]\<rparr>)"
  by (simp add: putpixel_def pixel_offset_def)

lemma decompose_facts:
  assumes "0 < usable" "0 < w" "pos < w * h * usable"
    and "decompose pos usable w = (x, y, c)"
  shows "x < w" "y < h" "c < usable" "y * w + x = pos div usable" "c = pos mod usable"
proof -
  have x: "x = (pos div usable) mod w" and y: "y = (pos div usable) div w"
    and c: "c = pos mod usable"
    using assms(4) by (simp_all add: decompose_def Let_def)
  have k: "pos div usable < w * h"
    using assms by (simp add: less_mult_imp_div_less)
  show "x < w" using assms x by simp
  show "y < h" using k y assms by (simp add: less_mult_imp_div_less mult.commute)
  show "c < usable" using c assms by simp
  show "y * w + x = pos div usable" using x y by simp
  show "c = pos mod usable" by (rule c)
qed

subsection \<open>Local complexity on loaded images\<close>

lemma loaded_pixel:
  assumes "loaded_image img" "k < width img * height img"
  shows "\<exists>t. data img ! k = Tuple t \<and> 3 \<le> length t \<and> length t = num_channels (data img ! 0)"
proof -
  have len: "length (data img) = width img * height img" and pos: "0 < width img * height img"
    and alt: "list_all (is_tuple_of 3) (data img) \<or> list_all (is_tuple_of 4) (data img)"
    using assms(1) by (simp_all add: loaded_image_def)
  have k: "k < length (data img)" and z: "0 < length (data img)"
    using assms(2) len pos by simp_all
  from alt show ?thesis
  proof
    assume "list_all (is_tuple_of 3) (data img)"
    then have "is_tuple_of 3 (data img ! k)" "is_tuple_of 3 (data img ! 0)"
      using k z by (simp_all add: list_all_length)
    then show ?thesis
      by (auto simp: is_tuple_of_def num_channels_def split: pixel.splits)
  next
    assume "list_all (is_tuple_of 4) (data img)"
    then have "is_tuple_of 4 (data img ! k)" "is_tuple_of 4 (data img ! 0)"
      using k z by (simp_all add: list_all_length)
    then show ?thesis
      by (auto simp: is_tuple_of_def num_channels_def split: pixel.splits)
  qed
qed

lemma getpixel_nonneg:
  "0 \<le> x \<Longrightarrow> 0 \<le> y \<Longrightarrow>
   getpixel img x y =
     (if x < int (width img) \<and> y < int (height img)
      then Inr (data img ! (nat y * width img + nat x)) else Inl IndexError)"
  by (simp add: getpixel_def pixel_offset_def)

lemma offset_bound: "x < w \<Longrightarrow> y < h \<Longrightarrow> y * w + x < w * (h::nat)"
proof -
  assume a: "x < w" "y < h"
  have "y * w + x < y * w + w" using a by simp
  also have "\<dots> = (Suc y) * w" by simp
  also have "\<dots> \<le> h * w" using a by (intro mult_le_mono1) simp
  finally show ?thesis by (simp add: mult.commute)
qed


lemma channel_loop_total:
  "3 \<le> length nb \<Longrightarrow> 3 \<le> length ce \<Longrightarrow>
   channel_loop nb ce [0, 1, 2] acc =
     Inr (acc + \<bar>nb ! 0 - ce ! 0\<bar> + \<bar>nb ! 1 - ce ! 1\<bar> + \<bar>nb ! 2 - ce ! 2\<bar>)"
proof -
  assume a: "3 \<le> length nb" "3 \<le> length ce"
  have g: "tuple_get nb 0 = Inr (nb ! 0)" "tuple_get nb 1 = Inr (nb ! 1)"
    "tuple_get nb 2 = Inr (nb ! 2)" "tuple_get ce 0 = Inr (ce ! 0)"
    "tuple_get ce 1 = Inr (ce ! 1)" "tuple_get ce 2 = Inr (ce ! 2)"
    using a by (auto simp: tuple_get_def)
  show ?thesis
    by (simp only: channel_loop.simps g sum.case)
qed

lemma neighbour_exact:
  assumes "getpixel img (cx + dx) (cy + dy) = Inr (Tuple t)" "3 \<le> length t" "3 \<le> length ce"
  shows "neighbour_loop img cx cy ce ((dx, dy) # rest) acc =
      neighbour_loop img cx cy ce rest
        (acc + \<bar>t ! 0 - ce ! 0\<bar> + \<bar>t ! 1 - ce ! 1\<bar> + \<bar>t ! 2 - ce ! 2\<bar>)"
  by (simp only: neighbour_loop.simps assms(1) sum.case as_triple_def pixel.case
      channel_loop_total [OF assms(2,3)])




lemma clamp_bounds: "1 \<le> hi \<Longrightarrow> 1 \<le> clamp v 1 hi \<and> clamp v 1 hi \<le> hi"
  by (simp add: clamp_def)

lemma clamp_degenerate: "hi < 1 \<Longrightarrow> clamp v 1 hi = 1"
  by (simp add: clamp_def)



lemma complexity_flat:
  assumes l: "loaded_image img" and f: "flat_image img"
    and w: "3 \<le> width img" and h: "3 \<le> height img"
  shows "compute_local_complexity img x y (int (width img)) (int (height img)) = Inr 0"
proof -
  define cx where "cx = clamp x 1 (int (width img) - 2)"
  define cy where "cy = clamp y 1 (int (height img) - 2)"
  have cx: "1 \<le> cx" "cx \<le> int (width img) - 2"
    using clamp_bounds [of "int (width img) - 2" x] w by (simp_all add: cx_def)
  have cy: "1 \<le> cy" "cy \<le> int (height img) - 2"
    using clamp_bounds [of "int (height img) - 2" y] h by (simp_all add: cy_def)
  have len: "length (data img) = width img * height img"
    using l by (simp add: loaded_image_def)
  obtain t where t: "data img ! 0 = Tuple t" "3 \<le> length t"
    using loaded_pixel [OF l, of 0] w h by auto
  have every: "getpixel img a b = Inr (Tuple t)"
    if "0 \<le> a" "a < int (width img)" "0 \<le> b" "b < int (height img)" for a b
  proof -
    have "nat a < width img" "nat b < height img"
      using that by (simp_all add: nat_less_iff)
    then have "nat b * width img + nat a < length (data img)"
      unfolding len by (rule offset_bound)
    then have "data img ! (nat b * width img + nat a) = data img ! 0"
      using f by (simp add: flat_image_def list_all_length)
    then show ?thesis using that t by (simp add: getpixel_nonneg)
  qed
  have t0: "getpixel img cx cy = Inr (Tuple t)" using cx cy by (intro every) simp_all
  have t1: "getpixel img (cx + (-1)) (cy + 0) = Inr (Tuple t)"
    using cx cy by (intro every) simp_all
  have t2: "getpixel img (cx + 1) (cy + 0) = Inr (Tuple t)"
    using cx cy by (intro every) simp_all
  have t3: "getpixel img (cx + 0) (cy + (-1)) = Inr (Tuple t)"
    using cx cy by (intro every) simp_all
  have t4: "getpixel img (cx + 0) (cy + 1) = Inr (Tuple t)"
    using cx cy by (intro every) simp_all
  have "compute_local_complexity img x y (int (width img)) (int (height img)) =
      neighbour_loop img cx cy t [(-1, 0), (1, 0), (0, -1), (0, 1)] 0"
    using t0 by (simp add: compute_local_complexity_def Let_def cx_def cy_def as_triple_def)
  also have "\<dots> = neighbour_loop img cx cy t [(1, 0), (0, -1), (0, 1)] 0"
    using neighbour_exact [OF t1 t(2) t(2), of "[(1, 0), (0, -1), (0, 1)]" 0] by simp
  also have "\<dots> = neighbour_loop img cx cy t [(0, -1), (0, 1)] 0"
    using neighbour_exact [OF t2 t(2) t(2), of "[(0, -1), (0, 1)]" 0] by simp
  also have "\<dots> = neighbour_loop img cx cy t [(0, 1)] 0"
    using neighbour_exact [OF t3 t(2) t(2), of "[(0, 1)]" 0] by simp
  also have "\<dots> = neighbour_loop img cx cy t [] 0"
    using neighbour_exact [OF t4 t(2) t(2), of "[]" 0] by simp
  finally show ?thesis by simp
qed


subsection \<open>One round on a loaded image\<close>

lemma loaded_capacity:
  assumes "loaded_image img"
  shows "getpixel img 0 0 = Inr (data img ! 0)"
    and "usable_channels (data img ! 0) = 3"
    and "total_capacity_bits img (data img ! 0) = width img * height img * 3"
    and "capacity img = width img * height img * 3"
    and "0 < width img * height img * 3"
proof -
  have pos: "0 < width img" "0 < height img" using assms by (simp_all add: loaded_image_def)
  show g: "getpixel img 0 0 = Inr (data img ! 0)"
    using getpixel_in_range [of 0 img 0] pos by simp
  obtain t where t: "data img ! 0 = Tuple t" "3 \<le> length t"
    using loaded_pixel [OF assms, of 0] pos by auto
  show u: "usable_channels (data img ! 0) = 3"
    using t by (simp add: usable_channels_def num_channels_def)
  show c: "total_capacity_bits img (data img ! 0) = width img * height img * 3"
    by (simp add: total_capacity_bits_def u)
  show "capacity img = width img * height img * 3"
    by (simp add: capacity_def g c)
  show "0 < width img * height img * 3" using pos by simp
qed

text \<open>What one round does on a loaded image, with every index known to be in range.\<close>

lemma accept_position:
  assumes l: "loaded_image img" and p: "pos < width img * height img * 3"
    and d: "decompose pos 3 (width img) = (x, y, c)"
  shows "getpixel img (int x) (int y) = Inr (data img ! (pos div 3))"
    and "tuple_get (channels (data img ! (pos div 3))) c = Inr (channel_value img (pos div 3) (pos mod 3))"
    and "putpixel img (int x) (int y) (Tuple ((channels (data img ! (pos div 3)))[c := v]))
          = Inr (set_channel img (pos div 3) (pos mod 3) v)"
    and "pos div 3 < width img * height img" and "c = pos mod 3"
proof -
  have w: "0 < width img" using l by (simp add: loaded_image_def)
  have f: "x < width img" "y < height img" "c < 3" "y * width img + x = pos div 3"
    "c = pos mod 3"
    using decompose_facts [OF _ w p d] by simp_all
  show k: "pos div 3 < width img * height img" using p by simp
  obtain t where t: "data img ! (pos div 3) = Tuple t" "3 \<le> length t"
    using loaded_pixel [OF l k] by auto
  show "getpixel img (int x) (int y) = Inr (data img ! (pos div 3))"
    using getpixel_in_range [OF f(1,2)] f(4) by simp
  show "tuple_get (channels (data img ! (pos div 3))) c =
      Inr (channel_value img (pos div 3) (pos mod 3))"
    using t f(3,5) by (simp add: tuple_get_def channels_def channel_value_def)
  show "putpixel img (int x) (int y) (Tuple ((channels (data img ! (pos div 3)))[c := v]))
          = Inr (set_channel img (pos div 3) (pos mod 3) v)"
    using putpixel_in_range [OF f(1,2)] f(4,5) by (simp add: set_channel_def)
  show "c = pos mod 3" by (rule f(5))
qed


lemma embed_accept_loaded:
  assumes l: "loaded_image (pixels s1)"
    and p: "pos < width (pixels s1) * height (pixels s1) * 3"
    and d: "decompose pos 3 (width (pixels s1)) = (x, y, c)"
    and e: "embedded s1 < length message_bits"
  shows "embed_accept message_bits s1 pos x y c = Inr (embed_commit message_bits s1 pos)"
proof -
  note a = accept_position [OF l p d]
  have tb: "tuple_get message_bits (embedded s1) = Inr (message_bits ! embedded s1)"
    using e by (simp add: tuple_get_def)
  show ?thesis
    by (simp add: embed_accept_def embed_commit_def Let_def a(1,2,3) tb split_def a(5) [symmetric])
qed


lemma embed_step_loaded:
  assumes l: "loaded_image (pixels s)"
    and cap: "cap = width (pixels s) * height (pixels s) * 3"
    and e: "embedded s < length message_bits"
  shows "embed_step message_bits T 3 cap s =
     (case position_complexity (pixels s) 3 (drawn_position s cap) of
        Inl err \<Rightarrow> Inl (err, drawn s)
      | Inr complexity \<Rightarrow>
          if complexity < T \<or> drawn_position s cap \<in> used_positions s then Inr (drawn s)
          else Inr (embed_commit message_bits (drawn s) (drawn_position s cap)))"
proof -
  define pos where "pos = drawn_position s cap"
  obtain x y c where d: "decompose pos 3 (width (pixels s)) = (x, y, c)"
    by (cases "decompose pos 3 (width (pixels s))") auto
  have c0: "0 < cap" "0 < width (pixels s)"
    using l cap by (simp_all add: loaded_image_def)
  have p: "pos < width (pixels s) * height (pixels s) * 3"
    using c0 cap by (simp add: pos_def drawn_position_def)
  have px: "pixels (drawn s) = pixels s" "embedded (drawn s) = embedded s"
    "used_positions (drawn s) = used_positions s"
    by (simp_all add: drawn_def)
  have acc: "embed_accept message_bits (drawn s) pos x y c =
      Inr (embed_commit message_bits (drawn s) pos)"
    using l p d e by (intro embed_accept_loaded) (simp_all add: px)
  have s1: "s\<lparr>attempts := Suc (attempts s), prng := snd (next_u32 (prng s))\<rparr> = drawn s"
    by (simp add: drawn_def)
  show ?thesis
    using c0 acc
    by (auto simp: embed_step_def Let_def split_def s1 position_complexity_def d
        pos_def [symmetric] drawn_position_def [symmetric] split: sum.splits)
qed



subsection \<open>The loops: unfolding and invariants\<close>

lemma embed_loop_stop:
  "\<not> (embedded s < length bits \<and> int (attempts s) < maxa) \<Longrightarrow>
   embed_loop bits T u cap maxa s = Inr s"
  by (subst embed_loop.simps) auto

lemma embed_loop_step:
  "embedded s < length bits \<Longrightarrow> int (attempts s) < maxa \<Longrightarrow>
   embed_step bits T u cap s = Inr s' \<Longrightarrow>
   embed_loop bits T u cap maxa s = embed_loop bits T u cap maxa s'"
  by (subst embed_loop.simps) auto

lemma embed_loop_fail:
  "embedded s < length bits \<Longrightarrow> int (attempts s) < maxa \<Longrightarrow>
   embed_step bits T u cap s = Inl f \<Longrightarrow>
   embed_loop bits T u cap maxa s = Inl f"
  by (subst embed_loop.simps) auto

lemma extract_loop_stop:
  "\<not> (int (length (extracted s)) < n \<and> int (attempts s) < maxa) \<Longrightarrow>
   extract_loop n T u cap maxa s = Inr s"
  by (subst extract_loop.simps) auto

lemma extract_loop_step:
  "int (length (extracted s)) < n \<Longrightarrow> int (attempts s) < maxa \<Longrightarrow>
   extract_step T u cap s = Inr s' \<Longrightarrow>
   extract_loop n T u cap maxa s = extract_loop n T u cap maxa s'"
  by (subst extract_loop.simps) auto

lemma extract_loop_fail:
  "int (length (extracted s)) < n \<Longrightarrow> int (attempts s) < maxa \<Longrightarrow>
   extract_step T u cap s = Inl f \<Longrightarrow>
   extract_loop n T u cap maxa s = Inl f"
  by (subst extract_loop.simps) auto

lemma embed_step_attempts:
  "embed_step bits T u cap s = Inr s' \<Longrightarrow> attempts s' = Suc (attempts s)"
  by (auto simp: embed_step_def embed_accept_def Let_def split_def
      split: if_splits sum.splits)

lemma extract_step_attempts:
  "extract_step T u cap s = Inr s' \<Longrightarrow> attempts s' = Suc (attempts s)"
  by (auto simp: extract_step_def extract_accept_def Let_def split_def
      split: if_splits sum.splits)

lemma embed_loop_invariant:
  assumes "I s"
    and "\<And>s s'. \<lbrakk>I s; embedded s < length bits; int (attempts s) < maxa;
            embed_step bits T u cap s = Inr s'\<rbrakk> \<Longrightarrow> I s'"
    and "\<And>s e s'. \<lbrakk>I s; embedded s < length bits; int (attempts s) < maxa;
            embed_step bits T u cap s = Inl (e, s')\<rbrakk> \<Longrightarrow> J s'"
  shows "(\<forall>sf. embed_loop bits T u cap maxa s = Inr sf \<longrightarrow>
            I sf \<and> \<not> (embedded sf < length bits \<and> int (attempts sf) < maxa))
       \<and> (\<forall>e sf. embed_loop bits T u cap maxa s = Inl (e, sf) \<longrightarrow> J sf)"
  using assms(1)
proof (induction "nat (maxa - int (attempts s))" arbitrary: s rule: less_induct)
  case less
  show ?case
  proof (cases "embedded s < length bits \<and> int (attempts s) < maxa")
    case False
    then have "embed_loop bits T u cap maxa s = Inr s"
      by (rule embed_loop_stop)
    then show ?thesis using False less.prems by simp
  next
    case True
    then have c: "embedded s < length bits" "int (attempts s) < maxa" by simp_all
    show ?thesis
    proof (cases "embed_step bits T u cap s")
      case (Inl f)
      obtain e s' where f: "f = (e, s')" by (cases f)
      have "embed_loop bits T u cap maxa s = Inl (e, s')"
        using embed_loop_fail [OF c Inl] f by simp
      moreover have "J s'"
        using assms(3) [OF less.prems c] Inl f by simp
      ultimately show ?thesis by simp
    next
      case (Inr s')
      have i: "I s'" using assms(2) [OF less.prems c Inr] .
      have "nat (maxa - int (attempts s')) < nat (maxa - int (attempts s))"
        using embed_step_attempts [OF Inr] c(2) by simp
      from less.hyps [OF this i]
      show ?thesis by (simp add: embed_loop_step [OF c Inr])
    qed
  qed
qed

lemma extract_loop_invariant:
  assumes "I s"
    and "\<And>s s'. \<lbrakk>I s; int (length (extracted s)) < n; int (attempts s) < maxa;
            extract_step T u cap s = Inr s'\<rbrakk> \<Longrightarrow> I s'"
    and "\<And>s e s'. \<lbrakk>I s; int (length (extracted s)) < n; int (attempts s) < maxa;
            extract_step T u cap s = Inl (e, s')\<rbrakk> \<Longrightarrow> J s'"
  shows "(\<forall>sf. extract_loop n T u cap maxa s = Inr sf \<longrightarrow>
            I sf \<and> \<not> (int (length (extracted sf)) < n \<and> int (attempts sf) < maxa))
       \<and> (\<forall>e sf. extract_loop n T u cap maxa s = Inl (e, sf) \<longrightarrow> J sf)"
  using assms(1)
proof (induction "nat (maxa - int (attempts s))" arbitrary: s rule: less_induct)
  case less
  show ?case
  proof (cases "int (length (extracted s)) < n \<and> int (attempts s) < maxa")
    case False
    then have "extract_loop n T u cap maxa s = Inr s"
      by (rule extract_loop_stop)
    then show ?thesis using False less.prems by simp
  next
    case True
    then have c: "int (length (extracted s)) < n" "int (attempts s) < maxa" by simp_all
    show ?thesis
    proof (cases "extract_step T u cap s")
      case (Inl f)
      obtain e s' where f: "f = (e, s')" by (cases f)
      have "extract_loop n T u cap maxa s = Inl (e, s')"
        using extract_loop_fail [OF c Inl] f by simp
      moreover have "J s'"
        using assms(3) [OF less.prems c] Inl f by simp
      ultimately show ?thesis by simp
    next
      case (Inr s')
      have i: "I s'" using assms(2) [OF less.prems c Inr] .
      have "nat (maxa - int (attempts s')) < nat (maxa - int (attempts s))"
        using extract_step_attempts [OF Inr] c(2) by simp
      from less.hyps [OF this i]
      show ?thesis by (simp add: extract_loop_step [OF c Inr])
    qed
  qed
qed

lemma embed_step_used:
  "embed_step bits T u cap s = Inr s' \<Longrightarrow>
     (used_positions s' = used_positions s \<and> embedded s' = embedded s) \<or>
     (drawn_position s cap \<notin> used_positions s \<and>
      used_positions s' = insert (drawn_position s cap) (used_positions s) \<and>
      embedded s' = Suc (embedded s))"
  by (auto simp: embed_step_def embed_accept_def drawn_position_def Let_def split_def
      split: if_splits sum.splits)

lemma embed_step_used_fail:
  "embed_step bits T u cap s = Inl (e, s') \<Longrightarrow>
     used_positions s' = used_positions s \<and> embedded s' = embedded s"
  by (auto simp: embed_step_def embed_accept_def Let_def split_def
      split: if_splits sum.splits)

lemma extract_step_used:
  "extract_step T u cap s = Inr s' \<Longrightarrow>
     (used_positions s' = used_positions s \<and> extracted s' = extracted s) \<or>
     (drawn_position s cap \<notin> used_positions s \<and>
      used_positions s' = insert (drawn_position s cap) (used_positions s) \<and>
      length (extracted s') = Suc (length (extracted s)))"
  by (auto simp: extract_step_def extract_accept_def drawn_position_def Let_def split_def
      split: if_splits sum.splits)

lemma extract_step_used_fail:
  "extract_step T u cap s = Inl (e, s') \<Longrightarrow>
     used_positions s' = used_positions s \<and> extracted s' = extracted s"
  by (auto simp: extract_step_def extract_accept_def Let_def split_def
      split: if_splits sum.splits)

lemma extract_step_pure:
  "extract_step T u cap s = Inr s' \<or> extract_step T u cap s = Inl (e, s') \<Longrightarrow>
     pixels s' = pixels s \<and> attempts s' = Suc (attempts s) \<and>
     draws (prng s') = Suc (draws (prng s))"
  by (auto simp: extract_step_def extract_accept_def Let_def split_def next_u32_def
      split: if_splits sum.splits)


lemma embed_message_bits_cases:
  assumes "\<And>e. getpixel img 0 0 = Inl e \<Longrightarrow> P (embed_refused e img)"
    and "\<And>sample. \<lbrakk>getpixel img 0 0 = Inr sample;
           total_capacity_bits img sample < length bits\<rbrakk>
         \<Longrightarrow> P (embed_refused CapacityExceeded img)"
    and "\<And>sample. \<lbrakk>getpixel img 0 0 = Inr sample;
           length bits \<le> total_capacity_bits img sample\<rbrakk>
         \<Longrightarrow> P (embed_finish bits
               (embed_loop bits T (usable_channels sample) (total_capacity_bits img sample)
                  (int (total_capacity_bits img sample) * f) (embed_start img pw)))"
  shows "P (embed_message_bits img bits pw T f)"
proof (cases "getpixel img 0 0")
  case (Inl e)
  then show ?thesis using assms(1) by (simp add: embed_message_bits_def)
next
  case (Inr sample)
  show ?thesis
  proof (cases "total_capacity_bits img sample < length bits")
    case True
    then show ?thesis using assms(2) [OF Inr] Inr by (simp add: embed_message_bits_def Let_def)
  next
    case False
    then have "length bits \<le> total_capacity_bits img sample" by simp
    from assms(3) [OF Inr this] show ?thesis
      using Inr False by (simp add: embed_message_bits_def Let_def)
  qed
qed

lemma extract_message_bits_cases:
  assumes "\<And>e. getpixel img 0 0 = Inl e \<Longrightarrow> P (extract_refused e img)"
    and "\<And>sample. \<lbrakk>getpixel img 0 0 = Inr sample;
           int (total_capacity_bits img sample) < n\<rbrakk>
         \<Longrightarrow> P (extract_refused CapacityExceeded img)"
    and "\<And>sample. \<lbrakk>getpixel img 0 0 = Inr sample;
           n \<le> int (total_capacity_bits img sample)\<rbrakk>
         \<Longrightarrow> P (extract_finish n
               (extract_loop n T (usable_channels sample) (total_capacity_bits img sample)
                  (int (total_capacity_bits img sample) * f) (extract_start img pw)))"
  shows "P (extract_message_bits img n pw T f)"
proof (cases "getpixel img 0 0")
  case (Inl e)
  then show ?thesis using assms(1) by (simp add: extract_message_bits_def)
next
  case (Inr sample)
  show ?thesis
  proof (cases "int (total_capacity_bits img sample) < n")
    case True
    then show ?thesis using assms(2) [OF Inr] Inr by (simp add: extract_message_bits_def Let_def)
  next
    case False
    then have "n \<le> int (total_capacity_bits img sample)" by simp
    from assms(3) [OF Inr this] show ?thesis
      using Inr False by (simp add: extract_message_bits_def Let_def)
  qed
qed

subsection \<open>The capacity guard\<close>

text \<open>
  C2. For every buffer whose pixel \<open>(0, 0)\<close> exists, every password, threshold and
  attempt factor: when the message has more bits than
  \<open>Capacity = width * height * usableChannelCount\<close>, \<open>embed_message_bits\<close> raises
  CapacityExceeded, no generator draw and no scheduling attempt has been made, and
  the buffer is the input buffer, pixel for pixel.
\<close>

theorem capacity_guard:
  assumes "0 < width img" "0 < height img"
    and "capacity img < length message_bits"
  shows "embed_message_bits img message_bits password complexity_threshold max_attempt_factor =
           \<lparr>outcome = Some CapacityExceeded, buffer = img, n_draws = 0, n_attempts = 0,
            positions = {}, n_embedded = 0\<rparr>
       \<and> capacity img = width img * height img * usable_channels (data img ! 0)"
proof -
  have g: "getpixel img 0 0 = Inr (data img ! 0)"
    using getpixel_in_range [of 0 img 0] assms(1,2) by simp
  have c: "capacity img = total_capacity_bits img (data img ! 0)"
    by (simp add: capacity_def g)
  show ?thesis
    using assms(3)
    by (simp add: embed_message_bits_def g c Let_def embed_refused_def total_capacity_bits_def)
qed

theorem capacity_guard_witness:
  "0 < width zero3 \<and> 0 < height zero3 \<and> capacity zero3 = 27
   \<and> capacity zero3 < length (replicate 28 (1::int))
   \<and> embed_message_bits zero3 (replicate 28 1) [120] 0 4 =
        \<lparr>outcome = Some CapacityExceeded, buffer = zero3, n_draws = 0, n_attempts = 0,
         positions = {}, n_embedded = 0\<rparr>"
proof -
  have h: "0 < width zero3" "0 < height zero3" by (simp_all add: zero3_def)
  have c: "capacity zero3 = 27"
    by (simp add: capacity_def getpixel_def pixel_offset_def total_capacity_bits_def
        usable_channels_def num_channels_def zero3_def)
  then have l: "capacity zero3 < length (replicate 28 (1::int))" by simp
  from capacity_guard [OF h l, of "[120]" 0 4] h c l show ?thesis by simp
qed

subsection \<open>Gating, uniqueness and purity\<close>

lemma embed_step_threshold:
  "embed_step bits T u cap s = Inr s' \<Longrightarrow> embedded s' \<noteq> embedded s \<Longrightarrow>
   \<exists>c. position_complexity (pixels s) u (drawn_position s cap) = Inr c \<and> T \<le> c"
  by (auto simp: embed_step_def position_complexity_def drawn_position_def Let_def split_def
      split: if_splits sum.splits)

lemma extract_step_threshold:
  "extract_step T u cap s = Inr s' \<Longrightarrow> used_positions s' \<noteq> used_positions s \<Longrightarrow>
   \<exists>c. position_complexity (pixels s) u (drawn_position s cap) = Inr c \<and> T \<le> c"
  by (auto simp: extract_step_def position_complexity_def drawn_position_def Let_def split_def
      split: if_splits sum.splits)

lemma extract_step_threshold':
  "extract_step T u cap s = Inr s' \<Longrightarrow> extracted s' \<noteq> extracted s \<Longrightarrow>
   \<exists>c. position_complexity (pixels s) u (drawn_position s cap) = Inr c \<and> T \<le> c"
  by (auto simp: extract_step_def position_complexity_def drawn_position_def Let_def split_def
      split: if_splits sum.splits)

lemma extract_inv_step:
  assumes "extract_inv img u T s" "extract_step T u cap s = Inr s'"
  shows "extract_inv img u T s'"
proof -
  have p: "pixels s' = pixels s" "attempts s' = Suc (attempts s)"
    "draws (prng s') = Suc (draws (prng s))"
    using extract_step_pure [of T u cap s s'] assms(2) by simp_all
  from extract_step_used [OF assms(2)] show ?thesis
  proof
    assume "used_positions s' = used_positions s \<and> extracted s' = extracted s"
    then show ?thesis using assms(1) p by (simp add: extract_inv_def)
  next
    assume a: "drawn_position s cap \<notin> used_positions s \<and>
      used_positions s' = insert (drawn_position s cap) (used_positions s) \<and>
      length (extracted s') = Suc (length (extracted s))"
    then have "used_positions s' \<noteq> used_positions s" by auto
    from extract_step_threshold [OF assms(2) this]
    show ?thesis using assms(1) p a by (auto simp: extract_inv_def)
  qed
qed

lemma extract_inv_fail:
  assumes "extract_inv img u T s" "extract_step T u cap s = Inl (e, s')"
  shows "extract_inv img u T s'"
proof -
  have p: "pixels s' = pixels s" "attempts s' = Suc (attempts s)"
    "draws (prng s') = Suc (draws (prng s))"
    using extract_step_pure [of T u cap s s' e] assms(2) by simp_all
  from extract_step_used_fail [OF assms(2)] show ?thesis
    using assms(1) p by (simp add: extract_inv_def)
qed

lemma extract_inv_start: "extract_inv img u T (extract_start img pw)"
  by (simp add: extract_inv_def extract_start_def new_prng_def)

lemma extract_loop_inv:
  "case extract_loop n T u cap maxa (extract_start img pw) of
     Inl (e, sf) \<Rightarrow> extract_inv img u T sf
   | Inr sf \<Rightarrow> extract_inv img u T sf"
proof -
  have "(\<forall>sf. extract_loop n T u cap maxa (extract_start img pw) = Inr sf \<longrightarrow>
            extract_inv img u T sf \<and>
            \<not> (int (length (extracted sf)) < n \<and> int (attempts sf) < maxa))
       \<and> (\<forall>e sf. extract_loop n T u cap maxa (extract_start img pw) = Inl (e, sf) \<longrightarrow>
            extract_inv img u T sf)"
  proof (rule extract_loop_invariant)
    show "extract_inv img u T (extract_start img pw)" by (rule extract_inv_start)
  next
    fix s s' :: extract_state
    assume "extract_inv img u T s" "extract_step T u cap s = Inr s'"
    then show "extract_inv img u T s'" by (rule extract_inv_step)
  next
    fix s s' :: extract_state and e
    assume "extract_inv img u T s" "extract_step T u cap s = Inl (e, s')"
    then show "extract_inv img u T s'" by (rule extract_inv_fail)
  qed
  then show ?thesis
    by (cases "extract_loop n T u cap maxa (extract_start img pw)") auto
qed


lemma embed_loop_inv:
  "case embed_loop bits T u cap maxa (embed_start img pw) of
     Inl (e, sf) \<Rightarrow> embed_inv sf
   | Inr sf \<Rightarrow> embed_inv sf"
proof -
  have "(\<forall>sf. embed_loop bits T u cap maxa (embed_start img pw) = Inr sf \<longrightarrow>
            embed_inv sf \<and> \<not> (embedded sf < length bits \<and> int (attempts sf) < maxa))
       \<and> (\<forall>e sf. embed_loop bits T u cap maxa (embed_start img pw) = Inl (e, sf) \<longrightarrow>
            embed_inv sf)"
  proof (rule embed_loop_invariant)
    show "embed_inv (embed_start img pw)" by (simp add: embed_inv_def embed_start_def)
  next
    fix s s' :: embed_state
    assume i: "embed_inv s" and st: "embed_step bits T u cap s = Inr s'"
    from embed_step_used [OF st] show "embed_inv s'"
      using i by (auto simp: embed_inv_def)
  next
    fix s s' :: embed_state and e
    assume i: "embed_inv s" and st: "embed_step bits T u cap s = Inl (e, s')"
    from embed_step_used_fail [OF st] show "embed_inv s'"
      using i by (simp add: embed_inv_def)
  qed
  then show ?thesis
    by (cases "embed_loop bits T u cap maxa (embed_start img pw)") auto
qed

lemma embed_call_inv:
  "finite (positions (embed_message_bits img bits pw T f)) \<and>
   card (positions (embed_message_bits img bits pw T f)) =
     n_embedded (embed_message_bits img bits pw T f)"
proof (rule embed_message_bits_cases)
  fix e
  show "finite (positions (embed_refused e img)) \<and>
    card (positions (embed_refused e img)) = n_embedded (embed_refused e img)"
    by (simp add: embed_refused_def)
next
  fix sample
  show "finite (positions (embed_refused CapacityExceeded img)) \<and>
    card (positions (embed_refused CapacityExceeded img)) =
      n_embedded (embed_refused CapacityExceeded img)"
    by (simp add: embed_refused_def)
next
  fix sample
  define r where "r = embed_loop bits T (usable_channels sample) (total_capacity_bits img sample)
      (int (total_capacity_bits img sample) * f) (embed_start img pw)"
  have "case r of Inl (e, sf) \<Rightarrow> embed_inv sf | Inr sf \<Rightarrow> embed_inv sf"
    unfolding r_def by (rule embed_loop_inv)
  then show "finite (positions (embed_finish bits r)) \<and>
    card (positions (embed_finish bits r)) = n_embedded (embed_finish bits r)"
    by (auto simp: embed_finish_def embed_report_def embed_inv_def split: sum.splits)
qed

lemma extract_call_inv:
  "buffer (extract_message_bits img n pw T f) = img \<and>
   n_draws (extract_message_bits img n pw T f) = n_attempts (extract_message_bits img n pw T f) \<and>
   finite (positions (extract_message_bits img n pw T f)) \<and>
   card (positions (extract_message_bits img n pw T f)) =
     length (returned (extract_message_bits img n pw T f))"
proof (rule extract_message_bits_cases)
  fix e
  show "buffer (extract_refused e img) = img \<and>
    n_draws (extract_refused e img) = n_attempts (extract_refused e img) \<and>
    finite (positions (extract_refused e img)) \<and>
    card (positions (extract_refused e img)) = length (returned (extract_refused e img))"
    by (simp add: extract_refused_def)
next
  fix sample
  show "buffer (extract_refused CapacityExceeded img) = img \<and>
    n_draws (extract_refused CapacityExceeded img) =
      n_attempts (extract_refused CapacityExceeded img) \<and>
    finite (positions (extract_refused CapacityExceeded img)) \<and>
    card (positions (extract_refused CapacityExceeded img)) =
      length (returned (extract_refused CapacityExceeded img))"
    by (simp add: extract_refused_def)
next
  fix sample
  define r where "r = extract_loop n T (usable_channels sample) (total_capacity_bits img sample)
      (int (total_capacity_bits img sample) * f) (extract_start img pw)"
  have "case r of Inl (e, sf) \<Rightarrow> extract_inv img (usable_channels sample) T sf
      | Inr sf \<Rightarrow> extract_inv img (usable_channels sample) T sf"
    unfolding r_def by (rule extract_loop_inv)
  then show "buffer (extract_finish n r) = img \<and>
    n_draws (extract_finish n r) = n_attempts (extract_finish n r) \<and>
    finite (positions (extract_finish n r)) \<and>
    card (positions (extract_finish n r)) = length (returned (extract_finish n r))"
    by (auto simp: extract_finish_def extract_report_def extract_inv_def split: sum.splits)
qed

lemma extract_call_threshold:
  assumes "pos \<in> positions (extract_message_bits img n pw T f)"
  shows "\<exists>c. position_complexity img (usable_channels (data img ! 0)) pos = Inr c \<and> T \<le> c"
proof -
  have "\<forall>pos \<in> positions (extract_message_bits img n pw T f).
      \<exists>c. position_complexity img (usable_channels (data img ! 0)) pos = Inr c \<and> T \<le> c"
  proof (rule extract_message_bits_cases)
    fix e
    show "\<forall>pos \<in> positions (extract_refused e img).
      \<exists>c. position_complexity img (usable_channels (data img ! 0)) pos = Inr c \<and> T \<le> c"
      by (simp add: extract_refused_def)
  next
    fix sample
    show "\<forall>pos \<in> positions (extract_refused CapacityExceeded img).
      \<exists>c. position_complexity img (usable_channels (data img ! 0)) pos = Inr c \<and> T \<le> c"
      by (simp add: extract_refused_def)
  next
    fix sample
    assume g: "getpixel img 0 0 = Inr sample"
    have sample: "sample = data img ! 0"
      using g by (auto simp: getpixel_def pixel_offset_def split: option.splits if_splits)
    define r where "r = extract_loop n T (usable_channels sample) (total_capacity_bits img sample)
        (int (total_capacity_bits img sample) * f) (extract_start img pw)"
    have "case r of Inl (e, sf) \<Rightarrow> extract_inv img (usable_channels sample) T sf
        | Inr sf \<Rightarrow> extract_inv img (usable_channels sample) T sf"
      unfolding r_def by (rule extract_loop_inv)
    then show "\<forall>pos \<in> positions (extract_finish n r).
      \<exists>c. position_complexity img (usable_channels (data img ! 0)) pos = Inr c \<and> T \<le> c"
      unfolding sample
      by (auto simp: extract_finish_def extract_report_def extract_inv_def split: sum.splits)
  qed
  then show ?thesis using assms by blast
qed


subsection \<open>Evaluation on concrete inputs\<close>

lemma mask32_mod: "(x::nat) AND 4294967295 = x mod 4294967296"
  using mask32 [of x] by (simp add: take_bit_eq_mod)

lemma next_u32_eval:
  "next_u32 \<lparr>state = n, draws = d\<rparr> =
     ((1103515245 * n + 12345) mod 4294967296,
      \<lparr>state = (1103515245 * n + 12345) mod 4294967296, draws = Suc d\<rparr>)"
  by (simp add: next_u32_def Let_def mask32_mod)

lemmas eval_defs = embed_message_bits_def extract_message_bits_def embed_report_def
  extract_report_def embed_refused_def extract_refused_def embed_start_def extract_start_def
  embed_finish_def extract_finish_def
  usable_channels_def num_channels_def total_capacity_bits_def capacity_def
  derive_seed_from_password_def new_prng_def mask32_mod
  embed_step_def extract_step_def embed_accept_def extract_accept_def lsb_match_def
  next_u32_eval decompose_def Let_def position_complexity_def drawn_position_def
  compute_local_complexity_def clamp_def getpixel_def putpixel_def pixel_offset_def
  as_triple_def tuple_get_def channels_def embed_loop.simps extract_loop.simps
  loaded_image_def is_tuple_of_def in_range_def flat_image_def channel_value_def

lemma hi_bits_eval: "hi_bits = [0, 1, 1, 0, 1, 0, 0, 0, 0, 1, 1, 0, 1, 0, 0, 1]"
  by (simp add: hi_bits_def byte_bits_def drop_bit_eq_div and_one_eq)

lemma zero3_embed_first:
  "embed_step hi_bits 0 3 27 (embed_start zero3 [120]) =
     Inr \<lparr>pixels = zero3, prng = \<lparr>state = 3572822865, draws = 1\<rparr>, used_positions = {21},
          attempts = 1, embedded = 1\<rparr>"
  by (simp add: eval_defs hi_bits_eval zero3_def)

lemma zero3_extract_first:
  "extract_step 0 3 27 (extract_start zero3 [120]) =
     Inr \<lparr>pixels = zero3, prng = \<lparr>state = 3572822865, draws = 1\<rparr>, used_positions = {21},
          attempts = 1, extracted = [0]\<rparr>"
  by (simp add: eval_defs zero3_def)

lemma zero3_first_position:
  "drawn_position (embed_start zero3 [120]) 27 = 21"
  "drawn_position (extract_start zero3 [120]) 27 = 21"
  by (simp_all add: eval_defs)

lemma zero3_loaded: "loaded_image zero3"
  by (simp add: eval_defs zero3_def)

subsection \<open>Complexity gating\<close>

text \<open>
  C4. For every threshold \<open>T\<close>: in the embed path and in the extract path, a round
  that accepts its position has computed, on the buffer as it is at that moment, a
  complexity \<open>c \<ge> T\<close> for the pixel the position decomposes to; and every position a
  whole extract call has accepted has complexity at least \<open>T\<close> on the buffer of the
  call.
\<close>

theorem complexity_gating:
  "(embed_step bits T u cap s = Inr s' \<and> embedded s' \<noteq> embedded s \<longrightarrow>
      (\<exists>c. position_complexity (pixels s) u (drawn_position s cap) = Inr c \<and> T \<le> c))
   \<and> (extract_step T u cap x = Inr x' \<and> extracted x' \<noteq> extracted x \<longrightarrow>
      (\<exists>c. position_complexity (pixels x) u (drawn_position x cap) = Inr c \<and> T \<le> c))
   \<and> (\<forall>pos \<in> positions (extract_message_bits img n pw T f).
      \<exists>c. position_complexity img (usable_channels (data img ! 0)) pos = Inr c \<and> T \<le> c)"
  using embed_step_threshold [of bits T u cap s s'] extract_step_threshold' [of T u cap x x']
    extract_call_threshold [of _ img n pw T f]
  by blast

theorem complexity_gating_witness:
  "(\<exists>s'. embed_step hi_bits 0 3 27 (embed_start zero3 [120]) = Inr s'
         \<and> embedded s' \<noteq> embedded (embed_start zero3 [120]))
   \<and> (\<exists>c. position_complexity zero3 3 21 = Inr c \<and> 0 \<le> c)
   \<and> (\<exists>x'. extract_step 0 3 27 (extract_start zero3 [120]) = Inr x'
         \<and> extracted x' \<noteq> extracted (extract_start zero3 [120]))"
proof -
  let ?s' = "\<lparr>pixels = zero3, prng = \<lparr>state = 3572822865, draws = 1\<rparr>,
      used_positions = {21}, attempts = 1, embedded = 1\<rparr>"
  let ?x' = "\<lparr>pixels = zero3, prng = \<lparr>state = 3572822865, draws = 1\<rparr>,
      used_positions = {21}, attempts = 1, extracted = [0::int]\<rparr>"
  have e1: "embed_step hi_bits 0 3 27 (embed_start zero3 [120]) = Inr ?s'"
    by (rule zero3_embed_first)
  have e2: "embedded ?s' \<noteq> embedded (embed_start zero3 [120])"
    by (simp add: embed_start_def)
  note e = conjI [OF e1 e2]
  have x1: "extract_step 0 3 27 (extract_start zero3 [120]) = Inr ?x'"
    by (rule zero3_extract_first)
  have x2: "extracted ?x' \<noteq> extracted (extract_start zero3 [120])"
    by (simp add: extract_start_def)
  note x = conjI [OF x1 x2]
  have p: "pixels (embed_start zero3 [120]) = zero3"
    by (simp add: embed_start_def)
  from complexity_gating [of hi_bits 0 3 27 "embed_start zero3 [120]" ?s'] e
  have "\<exists>c. position_complexity (pixels (embed_start zero3 [120])) 3
      (drawn_position (embed_start zero3 [120]) 27) = Inr c \<and> 0 \<le> c"
    by blast
  then have "\<exists>c. position_complexity zero3 3 21 = Inr c \<and> 0 \<le> c"
    by (simp only: p zero3_first_position)
  with e x show ?thesis by blast
qed


subsection \<open>Position uniqueness\<close>

text \<open>
  C6. Within one embed call and within one extract call no position is accepted
  twice: a round accepts its position only when it is not in \<open>used_positions\<close>, and
  then adds it; so at the end of every call, however it ends, the number of
  distinct accepted positions equals the number of acceptances (\<open>embedded\<close>, or the
  length of \<open>extracted\<close>).
\<close>

theorem position_uniqueness:
  "finite (positions (embed_message_bits img bits pw T f))
   \<and> card (positions (embed_message_bits img bits pw T f)) =
       n_embedded (embed_message_bits img bits pw T f)
   \<and> finite (positions (extract_message_bits img n pw T f))
   \<and> card (positions (extract_message_bits img n pw T f)) =
       length (returned (extract_message_bits img n pw T f))
   \<and> (embed_step bits T u cap s = Inr s' \<and> embedded s' \<noteq> embedded s \<longrightarrow>
        drawn_position s cap \<notin> used_positions s \<and>
        used_positions s' = insert (drawn_position s cap) (used_positions s) \<and>
        embedded s' = Suc (embedded s))
   \<and> (extract_step T u cap x = Inr x' \<and> extracted x' \<noteq> extracted x \<longrightarrow>
        drawn_position x cap \<notin> used_positions x \<and>
        used_positions x' = insert (drawn_position x cap) (used_positions x) \<and>
        length (extracted x') = Suc (length (extracted x)))"
  using embed_call_inv [of img bits pw T f] extract_call_inv [of img n pw T f]
    embed_step_used [of bits T u cap s s'] extract_step_used [of T u cap x x']
  by blast

theorem position_uniqueness_witness:
  "(\<exists>s'. embed_step hi_bits 0 3 27 (embed_start zero3 [120]) = Inr s'
         \<and> embedded s' \<noteq> embedded (embed_start zero3 [120])
         \<and> used_positions s' = insert 21 (used_positions (embed_start zero3 [120])))
   \<and> 21 \<notin> used_positions (embed_start zero3 [120])
   \<and> (\<exists>x'. extract_step 0 3 27 (extract_start zero3 [120]) = Inr x'
         \<and> extracted x' \<noteq> extracted (extract_start zero3 [120])
         \<and> used_positions x' = insert 21 (used_positions (extract_start zero3 [120])))
   \<and> card (positions (embed_message_bits zero3 hi_bits [120] 0 4)) =
       n_embedded (embed_message_bits zero3 hi_bits [120] 0 4)"
proof -
  let ?s' = "\<lparr>pixels = zero3, prng = \<lparr>state = 3572822865, draws = 1\<rparr>,
      used_positions = {21}, attempts = 1, embedded = 1\<rparr>"
  let ?x' = "\<lparr>pixels = zero3, prng = \<lparr>state = 3572822865, draws = 1\<rparr>,
      used_positions = {21}, attempts = 1, extracted = [0::int]\<rparr>"
  have e1: "embed_step hi_bits 0 3 27 (embed_start zero3 [120]) = Inr ?s'"
    by (rule zero3_embed_first)
  have e2: "embedded ?s' \<noteq> embedded (embed_start zero3 [120])"
    by (simp add: embed_start_def)
  have x1: "extract_step 0 3 27 (extract_start zero3 [120]) = Inr ?x'"
    by (rule zero3_extract_first)
  have x2: "extracted ?x' \<noteq> extracted (extract_start zero3 [120])"
    by (simp add: extract_start_def)
  note u = position_uniqueness [of zero3 hi_bits "[120]" 0 4 16 3 27
      "embed_start zero3 [120]" ?s' "extract_start zero3 [120]" ?x']
  from u e1 e2 have a: "drawn_position (embed_start zero3 [120]) 27
        \<notin> used_positions (embed_start zero3 [120]) \<and>
      used_positions ?s' = insert (drawn_position (embed_start zero3 [120]) 27)
        (used_positions (embed_start zero3 [120]))"
    by blast
  from u x1 x2 have b: "used_positions ?x' =
      insert (drawn_position (extract_start zero3 [120]) 27)
        (used_positions (extract_start zero3 [120]))"
    by blast
  from u have c: "card (positions (embed_message_bits zero3 hi_bits [120] 0 4)) =
       n_embedded (embed_message_bits zero3 hi_bits [120] 0 4)"
    by blast
  from a b c e1 e2 x1 x2 show ?thesis
    unfolding zero3_first_position by blast
qed

subsection \<open>Extraction reads only\<close>




subsection \<open>Flat images\<close>

lemma drawn_fields:
  "pixels (drawn s) = pixels s" "used_positions (drawn s) = used_positions s"
  "attempts (drawn s) = Suc (attempts s)" "draws (prng (drawn s)) = Suc (draws (prng s))"
  "state (prng (drawn s)) = fst (next_u32 (prng s))"
  by (simp_all add: drawn_def next_u32_facts)

lemma drawn_embedded: "embedded (drawn s) = embedded s"
  by (simp add: drawn_def)


lemma position_complexity_flat:
  assumes "loaded_image img" "flat_image img" "3 \<le> width img" "3 \<le> height img"
  shows "position_complexity img u pos = Inr 0"
  by (simp add: position_complexity_def split_def complexity_flat [OF assms])

lemma flat_round:
  assumes l: "loaded_image (pixels s)" and f: "flat_image (pixels s)"
    and w: "3 \<le> width (pixels s)" and h: "3 \<le> height (pixels s)"
    and T: "0 < T" and e: "embedded s < length bits"
  shows "embed_step bits T 3 (capacity (pixels s)) s = Inr (drawn s)"
proof -
  have cap: "capacity (pixels s) = width (pixels s) * height (pixels s) * 3"
    using loaded_capacity(4) [OF l] .
  show ?thesis
    unfolding embed_step_loaded [OF l cap e]
    using T by (simp add: position_complexity_flat [OF l f w h])
qed

lemma flat_loop:
  assumes l: "loaded_image img" and f: "flat_image img"
    and w: "3 \<le> width img" and h: "3 \<le> height img"
    and T: "0 < T" and b: "0 < length bits"
  shows "\<exists>sf. embed_loop bits T 3 (capacity img) maxa (embed_start img pw) = Inr sf \<and>
           pixels sf = img \<and> embedded sf = 0 \<and> used_positions sf = {} \<and>
           draws (prng sf) = attempts sf \<and> attempts sf = nat maxa"
proof -
  define I where "I = (\<lambda>s :: embed_state. pixels s = img \<and> embedded s = 0 \<and>
      used_positions s = {} \<and> draws (prng s) = attempts s \<and> int (attempts s) \<le> max 0 maxa)"
  have "(\<forall>sf. embed_loop bits T 3 (capacity img) maxa (embed_start img pw) = Inr sf \<longrightarrow>
            I sf \<and> \<not> (embedded sf < length bits \<and> int (attempts sf) < maxa))
       \<and> (\<forall>e sf. embed_loop bits T 3 (capacity img) maxa (embed_start img pw) = Inl (e, sf) \<longrightarrow>
            False)"
  proof (rule embed_loop_invariant)
    show "I (embed_start img pw)"
      by (simp add: I_def embed_start_def new_prng_def)
  next
    fix s s' :: embed_state
    assume i: "I s" and c: "embedded s < length bits" "int (attempts s) < maxa"
      and st: "embed_step bits T 3 (capacity img) s = Inr s'"
    have p: "pixels s = img" using i by (simp add: I_def)
    have "embed_step bits T 3 (capacity img) s = Inr (drawn s)"
      using flat_round [of s T bits] l f w h T c(1) unfolding p by simp
    with st have "s' = drawn s" by simp
    then show "I s'"
      using i c(2) by (simp add: I_def drawn_fields drawn_embedded)
  next
    fix s s' :: embed_state and e
    assume i: "I s" and c: "embedded s < length bits" "int (attempts s) < maxa"
      and st: "embed_step bits T 3 (capacity img) s = Inl (e, s')"
    have p: "pixels s = img" using i by (simp add: I_def)
    have "embed_step bits T 3 (capacity img) s = Inr (drawn s)"
      using flat_round [of s T bits] l f w h T c(1) unfolding p by simp
    with st show False by simp
  qed
  then obtain sf where sf: "embed_loop bits T 3 (capacity img) maxa (embed_start img pw) = Inr sf"
    "I sf" "\<not> (embedded sf < length bits \<and> int (attempts sf) < maxa)"
    by (cases "embed_loop bits T 3 (capacity img) maxa (embed_start img pw)") auto
  have "attempts sf = nat maxa"
    using sf(2,3) b by (auto simp: I_def)
  then show ?thesis using sf(1,2) by (simp add: I_def)
qed

text \<open>
  C5, as the code has it. For every uniformly flat buffer of at least 3 by 3 pixels
  (RGB or RGBA), the complexity is 0 at every coordinate; and for every threshold
  \<open>T > 0\<close>, every message of \<open>N\<close> bits with \<open>0 < N \<le> Capacity\<close> and every attempt
  factor \<open>\<ge> 0\<close>, \<open>embed_message_bits\<close> makes exactly \<open>Capacity * attemptFactor\<close> draws
  and as many attempts, accepts no position, leaves the buffer as it was and raises
  BudgetExhausted. (A message longer than the capacity is refused by the capacity
  guard before any draw.)
\<close>

theorem flat_budget_exhaustion:
  assumes "loaded_image img" "flat_image img" "3 \<le> width img" "3 \<le> height img"
    and "0 < T" "0 < length bits" "length bits \<le> capacity img" "0 \<le> f"
  shows "(\<forall>x y. compute_local_complexity img x y (int (width img)) (int (height img)) = Inr 0)
       \<and> embed_message_bits img bits pw T f =
           \<lparr>outcome = Some BudgetExhausted, buffer = img,
            n_draws = nat (int (capacity img) * f), n_attempts = nat (int (capacity img) * f),
            positions = {}, n_embedded = 0\<rparr>"
proof -
  note c = loaded_capacity [OF assms(1)]
  have cap: "total_capacity_bits img (data img ! 0) = capacity img"
    by (simp add: c(3,4))
  obtain sf where sf:
    "embed_loop bits T 3 (capacity img) (int (capacity img) * f) (embed_start img pw) = Inr sf"
    "pixels sf = img" "embedded sf = 0" "used_positions sf = {}"
    "draws (prng sf) = attempts sf" "attempts sf = nat (int (capacity img) * f)"
    using flat_loop [OF assms(1-6), of "int (capacity img) * f" pw] by blast
  have "embed_message_bits img bits pw T f =
      embed_finish bits (embed_loop bits T 3 (capacity img) (int (capacity img) * f)
        (embed_start img pw))"
    using assms(7) by (simp add: embed_message_bits_def c(1,2) cap Let_def)
  also have "\<dots> = \<lparr>outcome = Some BudgetExhausted, buffer = img,
            n_draws = nat (int (capacity img) * f), n_attempts = nat (int (capacity img) * f),
            positions = {}, n_embedded = 0\<rparr>"
    using sf assms(6) by (simp add: embed_finish_def embed_report_def)
  finally show ?thesis
    using complexity_flat [OF assms(1-4)] by simp
qed

lemma flat3_facts: "loaded_image flat3" "flat_image flat3" "capacity flat3 = 27"
  by (simp_all add: eval_defs flat3_def)

theorem flat_budget_exhaustion_witness:
  "loaded_image flat3 \<and> flat_image flat3 \<and> 3 \<le> width flat3 \<and> 3 \<le> height flat3
   \<and> length [1::int] \<le> capacity flat3
   \<and> compute_local_complexity flat3 0 2 3 3 = Inr 0
   \<and> embed_message_bits flat3 [1] [120] 1 4 =
        \<lparr>outcome = Some BudgetExhausted, buffer = flat3, n_draws = 108, n_attempts = 108,
         positions = {}, n_embedded = 0\<rparr>"
proof -
  have d: "3 \<le> width flat3" "3 \<le> height flat3" "width flat3 = 3" "height flat3 = 3"
    by (simp_all add: flat3_def)
  have n: "(0::int) < 1" "0 < length [1::int]" "length [1::int] \<le> capacity flat3" "(0::int) \<le> 4"
    by (simp_all add: flat3_facts)
  from flat_budget_exhaustion [OF flat3_facts(1,2) d(1,2) n, of "[120]"]
  show ?thesis using flat3_facts d n by (simp add: flat3_facts)
qed

theorem flat_capacity_counterexample:
  "loaded_image flat3 \<and> flat_image flat3 \<and> (0::int) < 1 \<and> 0 < length (replicate 28 (1::int))
   \<and> outcome (embed_message_bits flat3 (replicate 28 1) [120] 1 4) = Some CapacityExceeded
   \<and> n_draws (embed_message_bits flat3 (replicate 28 1) [120] 1 4) = 0
   \<and> capacity flat3 * 4 = 108"
  by (simp add: flat3_facts) (simp add: eval_defs flat3_def)


subsection \<open>What an accepting embed round writes\<close>

lemma set_channel_size:
  "width (set_channel img k c v) = width img" "height (set_channel img k c v) = height img"
  "length (data (set_channel img k c v)) = length (data img)"
  by (simp_all add: set_channel_def)

lemma set_channel_other:
  "k' \<noteq> k \<or> c' \<noteq> c \<Longrightarrow>
   channel_value (set_channel img k c v) k' c' = channel_value img k' c'"
  by (cases "k' = k"; cases "k < length (data img)")
    (auto simp: set_channel_def channel_value_def channels_def list_update_beyond)

lemma set_channel_same:
  assumes "loaded_image img" "k < width img * height img" "c < 3"
  shows "channel_value (set_channel img k c v) k c = v"
proof -
  obtain t where t: "data img ! k = Tuple t" "3 \<le> length t"
    using loaded_pixel [OF assms(1,2)] by auto
  have "k < length (data img)" using assms(1,2) by (simp add: loaded_image_def)
  then show ?thesis
    using t assms(3) by (simp add: set_channel_def channel_value_def channels_def)
qed

lemma set_channel_lengths:
  "length (channels (data (set_channel img k c v) ! k')) = length (channels (data img ! k'))"
  by (cases "k' = k"; cases "k < length (data img)")
    (auto simp: set_channel_def channels_def list_update_beyond)

lemma set_channel_loaded:
  assumes "loaded_image img" "k < width img * height img"
  shows "loaded_image (set_channel img k c v)"
proof -
  have len: "length (data img) = width img * height img"
    using assms(1) by (simp add: loaded_image_def)
  have keep: "list_all (is_tuple_of n) (data (set_channel img k c v))"
    if "list_all (is_tuple_of n) (data img)" for n
  proof -
    have "is_tuple_of n (data img ! k)"
      using that assms(2) len by (simp add: list_all_length)
    then have "is_tuple_of n (Tuple ((channels (data img ! k))[c := v]))"
      by (auto simp: is_tuple_of_def channels_def split: pixel.splits)
    moreover have "k < length (data img)" using assms(2) len by simp
    ultimately show ?thesis
      using that by (auto simp: list_all_length set_channel_def nth_list_update)
  qed
  show ?thesis
    using assms(1) keep [of 3] keep [of 4]
    by (auto simp: loaded_image_def set_channel_size)
qed

lemma lsb_match_moved: "lsb_moved v (fst (lsb_match v g))"
  by (auto simp: lsb_match_def lsb_moved_def split_def Let_def)



lemma position_split:
  "c < 3 \<Longrightarrow> (k * 3 + c = pos) = (k = pos div 3 \<and> c = pos mod (3::nat))"
  by auto

lemma embed_commit_fields:
  "used_positions (embed_commit bits s1 pos) = insert pos (used_positions s1)"
  "embedded (embed_commit bits s1 pos) = Suc (embedded s1)"
  "attempts (embed_commit bits s1 pos) = attempts s1"
  "pixels (embed_commit bits s1 pos) =
     (if channel_value (pixels s1) (pos div 3) (pos mod 3) AND 1 \<noteq> bits ! embedded s1
      then set_channel (pixels s1) (pos div 3) (pos mod 3)
             (fst (lsb_match (channel_value (pixels s1) (pos div 3) (pos mod 3)) (prng s1)))
      else pixels s1)"
  "prng (embed_commit bits s1 pos) =
     (if channel_value (pixels s1) (pos div 3) (pos mod 3) AND 1 \<noteq> bits ! embedded s1
      then snd (lsb_match (channel_value (pixels s1) (pos div 3) (pos mod 3)) (prng s1))
      else prng s1)"
  by (simp_all add: embed_commit_def Let_def)


lemma embed_frame_drawn: "embed_frame img s \<Longrightarrow> embed_frame img (drawn s)"
  by (simp add: embed_frame_def drawn_fields)

lemma embed_frame_commit:
  assumes fr: "embed_frame img s" and p: "pos < width img * height img * 3"
    and n: "pos \<notin> used_positions s"
  shows "embed_frame img (embed_commit bits (drawn s) pos)"
proof -
  let ?s' = "embed_commit bits (drawn s) pos"
  let ?k = "pos div 3" and ?c = "pos mod 3"
  let ?v = "channel_value (pixels s) ?k ?c"
  let ?v' = "fst (lsb_match ?v (prng (drawn s)))"
  have l: "loaded_image (pixels s)" and w: "width (pixels s) = width img"
    and h: "height (pixels s) = height img"
    using fr by (simp_all add: embed_frame_def)
  have k: "?k < width (pixels s) * height (pixels s)" using p w h by simp
  have c: "?c < 3" by simp
  have old: "?v = channel_value img ?k ?c"
  proof -
    have "?k * 3 + ?c = pos" by simp
    then have "\<not> (?c < 3 \<and> ?k * 3 + ?c \<in> used_positions s)" using n by simp
    then show ?thesis
      using fr k w h unfolding embed_frame_def by (metis (no_types, lifting))
  qed
  show ?thesis
  proof (cases "?v AND 1 \<noteq> bits ! embedded (drawn s)")
    case False
    then have px: "pixels ?s' = pixels s"
      by (simp add: embed_commit_fields drawn_fields)
    have "\<And>k c. k < width img * height img \<Longrightarrow>
        (if c < 3 \<and> k * 3 + c \<in> insert pos (used_positions s)
         then channel_value (pixels s) k c = channel_value img k c \<or>
              lsb_moved (channel_value img k c) (channel_value (pixels s) k c)
         else channel_value (pixels s) k c = channel_value img k c)"
      using fr unfolding embed_frame_def by (metis (no_types, lifting) insert_iff)
    then show ?thesis
      using fr by (simp add: embed_frame_def px embed_commit_fields(1) drawn_fields)
  next
    case True
    then have px: "pixels ?s' = set_channel (pixels s) ?k ?c ?v'"
      by (simp add: embed_commit_fields drawn_fields)
    have mv: "lsb_moved (channel_value img ?k ?c) ?v'"
      using lsb_match_moved [of ?v "prng (drawn s)"] old by simp
    have same: "channel_value (set_channel (pixels s) ?k ?c ?v') ?k ?c = ?v'"
      by (rule set_channel_same [OF l k c])
    have each: "(if c' < 3 \<and> k' * 3 + c' \<in> insert pos (used_positions s)
         then channel_value (set_channel (pixels s) ?k ?c ?v') k' c' = channel_value img k' c' \<or>
              lsb_moved (channel_value img k' c')
                (channel_value (set_channel (pixels s) ?k ?c ?v') k' c')
         else channel_value (set_channel (pixels s) ?k ?c ?v') k' c' = channel_value img k' c')"
      if k': "k' < width img * height img" for k' c'
    proof (cases "k' = ?k \<and> c' = ?c")
      case True
      then show ?thesis using same mv by simp
    next
      case False
      then have o: "channel_value (set_channel (pixels s) ?k ?c ?v') k' c' =
          channel_value (pixels s) k' c'"
        by (intro set_channel_other) auto
      have m: "(c' < 3 \<and> k' * 3 + c' \<in> insert pos (used_positions s)) =
          (c' < 3 \<and> k' * 3 + c' \<in> used_positions s)"
        using False position_split [of c' k' pos] by auto
      have "(if c' < 3 \<and> k' * 3 + c' \<in> used_positions s
         then channel_value (pixels s) k' c' = channel_value img k' c' \<or>
              lsb_moved (channel_value img k' c') (channel_value (pixels s) k' c')
         else channel_value (pixels s) k' c' = channel_value img k' c')"
        using fr k' unfolding embed_frame_def by (metis (no_types, lifting))
      then show ?thesis unfolding o m .
    qed
    have len: "length (channels (data (set_channel (pixels s) ?k ?c ?v') ! k')) =
        length (channels (data img ! k'))" if "k' < width img * height img" for k'
      using fr that by (simp add: set_channel_lengths embed_frame_def)
    show ?thesis
      unfolding embed_frame_def px embed_commit_fields(1) drawn_fields
      using set_channel_loaded [OF l k, of ?c ?v'] w h each len
      by (simp add: set_channel_size)
  qed
qed


lemma drawn_position_less: "0 < cap \<Longrightarrow> drawn_position s cap < cap"
  by (simp add: drawn_position_def)

lemma embed_frame_round:
  assumes fr: "embed_frame img s" and cap: "cap = width img * height img * 3"
    and e: "embedded s < length bits"
  shows "(embed_step bits T 3 cap s = Inr s' \<longrightarrow> embed_frame img s')
       \<and> (embed_step bits T 3 cap s = Inl (err, s') \<longrightarrow> embed_frame img s')"
proof -
  have l: "loaded_image (pixels s)" and w: "width (pixels s) = width img"
    and h: "height (pixels s) = height img"
    using fr by (simp_all add: embed_frame_def)
  have cap': "cap = width (pixels s) * height (pixels s) * 3" using cap w h by simp
  have c0: "0 < cap" using l cap' by (simp add: loaded_image_def)
  have p: "drawn_position s cap < width img * height img * 3"
    using drawn_position_less [OF c0, of s] cap by simp
  note d = embed_frame_drawn [OF fr]
  note cm = embed_frame_commit [OF fr p, of bits]
  show ?thesis
    unfolding embed_step_loaded [OF l cap' e]
    using d cm by (auto split: sum.splits if_splits)
qed

lemma embed_frame_start: "loaded_image img \<Longrightarrow> embed_frame img (embed_start img pw)"
  by (simp add: embed_frame_def embed_start_def)

lemma embed_loop_frame:
  assumes l: "loaded_image img" and cap: "cap = width img * height img * 3"
  shows "case embed_loop bits T 3 cap maxa (embed_start img pw) of
     Inl (e, sf) \<Rightarrow> embed_frame img sf
   | Inr sf \<Rightarrow> embed_frame img sf"
proof -
  have "(\<forall>sf. embed_loop bits T 3 cap maxa (embed_start img pw) = Inr sf \<longrightarrow>
            embed_frame img sf \<and> \<not> (embedded sf < length bits \<and> int (attempts sf) < maxa))
       \<and> (\<forall>e sf. embed_loop bits T 3 cap maxa (embed_start img pw) = Inl (e, sf) \<longrightarrow>
            embed_frame img sf)"
  proof (rule embed_loop_invariant)
    show "embed_frame img (embed_start img pw)" using l by (rule embed_frame_start)
  next
    fix s s' :: embed_state
    assume "embed_frame img s" "embedded s < length bits" "embed_step bits T 3 cap s = Inr s'"
    then show "embed_frame img s'"
      using embed_frame_round [OF _ cap, of s bits T s'] by blast
  next
    fix s s' :: embed_state and e
    assume "embed_frame img s" "embedded s < length bits"
      "embed_step bits T 3 cap s = Inl (e, s')"
    then show "embed_frame img s'"
      using embed_frame_round [OF _ cap, of s bits T s' e] by blast
  qed
  then show ?thesis
    by (cases "embed_loop bits T 3 cap maxa (embed_start img pw)") auto
qed

lemma embed_call_frame:
  assumes l: "loaded_image img"
  shows "\<exists>sf. embed_frame img sf \<and> buffer (embed_message_bits img bits pw T f) = pixels sf"
proof -
  note c = loaded_capacity [OF l]
  show ?thesis
  proof (cases "total_capacity_bits img (data img ! 0) < length bits")
    case True
    then have "buffer (embed_message_bits img bits pw T f) = pixels (embed_start img pw)"
      by (simp add: embed_message_bits_def c(1) Let_def embed_refused_def embed_start_def)
    then show ?thesis using embed_frame_start [OF l] by blast
  next
    case False
    define r where "r = embed_loop bits T 3 (width img * height img * 3)
        (int (width img * height img * 3) * f) (embed_start img pw)"
    have fr: "case r of Inl (e, sf) \<Rightarrow> embed_frame img sf | Inr sf \<Rightarrow> embed_frame img sf"
      unfolding r_def by (rule embed_loop_frame [OF l refl])
    have "embed_message_bits img bits pw T f = embed_finish bits r"
      using False by (simp add: embed_message_bits_def c(1,2,3) Let_def r_def)
    then show ?thesis
      using fr by (auto simp: embed_finish_def embed_report_def split: sum.splits)
  qed
qed

lemma in_range_iff:
  "in_range img \<longleftrightarrow>
     (\<forall>k < length (data img). \<forall>c < length (channels (data img ! k)).
        0 \<le> channel_value img k c \<and> channel_value img k c \<le> 255)"
  by (simp add: in_range_def list_all_length channel_value_def)

lemma lsb_moved_range: "0 \<le> old \<Longrightarrow> old \<le> 255 \<Longrightarrow> lsb_moved old new \<Longrightarrow> 0 \<le> new \<and> new \<le> 255"
  by (auto simp: lsb_moved_def)

lemma embed_call_values:
  assumes l: "loaded_image img"
  shows "width (buffer (embed_message_bits img bits pw T f)) = width img
       \<and> height (buffer (embed_message_bits img bits pw T f)) = height img
       \<and> (\<forall>k c. k < width img * height img \<longrightarrow>
            channel_value (buffer (embed_message_bits img bits pw T f)) k c = channel_value img k c \<or>
            lsb_moved (channel_value img k c)
              (channel_value (buffer (embed_message_bits img bits pw T f)) k c))
       \<and> (\<forall>k c. k < width img * height img \<and> 3 \<le> c \<longrightarrow>
            channel_value (buffer (embed_message_bits img bits pw T f)) k c = channel_value img k c)
       \<and> (in_range img \<longrightarrow> in_range (buffer (embed_message_bits img bits pw T f)))"
proof -
  obtain sf where fr: "embed_frame img sf"
    and b: "buffer (embed_message_bits img bits pw T f) = pixels sf"
    using embed_call_frame [OF l] by blast
  have size: "width (pixels sf) = width img" "height (pixels sf) = height img"
    "length (data (pixels sf)) = width img * height img"
    "length (data img) = width img * height img"
    using fr l by (simp_all add: embed_frame_def loaded_image_def)
  have any: "channel_value (pixels sf) k c = channel_value img k c \<or>
      lsb_moved (channel_value img k c) (channel_value (pixels sf) k c)"
    if "k < width img * height img" for k c
    using fr that unfolding embed_frame_def by (metis (no_types, lifting))
  have alpha: "channel_value (pixels sf) k c = channel_value img k c"
    if "k < width img * height img" "3 \<le> c" for k c
  proof -
    have "\<not> (c < 3 \<and> k * 3 + c \<in> used_positions sf)" using that(2) by simp
    then show ?thesis
      using fr that(1) unfolding embed_frame_def by (metis (no_types, lifting))
  qed
  have len: "length (channels (data (pixels sf) ! k)) = length (channels (data img ! k))"
    if "k < width img * height img" for k
    using fr that by (simp add: embed_frame_def)
  have rng: "in_range (pixels sf)" if r: "in_range img"
    unfolding in_range_iff
  proof (intro allI impI)
    fix k c
    assume k: "k < length (data (pixels sf))" and c: "c < length (channels (data (pixels sf) ! k))"
    have k': "k < width img * height img" using k size by simp
    have c': "c < length (channels (data img ! k))" using c len [OF k'] by simp
    have o: "0 \<le> channel_value img k c \<and> channel_value img k c \<le> 255"
      using r k' c' size unfolding in_range_iff by simp
    from any [OF k', of c] show "0 \<le> channel_value (pixels sf) k c \<and>
        channel_value (pixels sf) k c \<le> 255"
      using o lsb_moved_range [of "channel_value img k c" "channel_value (pixels sf) k c"]
      by auto
  qed
  show ?thesis
    unfolding b using size any alpha rng by simp
qed


lemma embed_round_accept:
  assumes l: "loaded_image (pixels s)" and e: "embedded s < length bits"
    and st: "embed_step bits T 3 (capacity (pixels s)) s = Inr s'"
    and ne: "embedded s' \<noteq> embedded s"
  shows "s' = embed_commit bits (drawn s) (drawn_position s (capacity (pixels s)))"
    and "drawn_position s (capacity (pixels s)) \<notin> used_positions s"
    and "\<exists>c. position_complexity (pixels s) 3 (drawn_position s (capacity (pixels s))) = Inr c
           \<and> T \<le> c"
proof -
  have cap: "capacity (pixels s) = width (pixels s) * height (pixels s) * 3"
    using loaded_capacity(4) [OF l] .
  from st ne show "s' = embed_commit bits (drawn s) (drawn_position s (capacity (pixels s)))"
    unfolding embed_step_loaded [OF l cap e]
    by (auto simp: drawn_embedded split: sum.splits if_splits)
  from st ne show "drawn_position s (capacity (pixels s)) \<notin> used_positions s"
    unfolding embed_step_loaded [OF l cap e]
    by (auto simp: drawn_embedded split: sum.splits if_splits)
  from st ne show "\<exists>c. position_complexity (pixels s) 3
      (drawn_position s (capacity (pixels s))) = Inr c \<and> T \<le> c"
    unfolding embed_step_loaded [OF l cap e]
    by (auto simp: drawn_embedded split: sum.splits if_splits)
qed

lemma embed_round_write:
  assumes l: "loaded_image (pixels s)" and e: "embedded s < length bits"
    and st: "embed_step bits T 3 (capacity (pixels s)) s = Inr s'"
    and ne: "embedded s' \<noteq> embedded s"
  shows "(round_channel s AND 1 = bits ! embedded s \<longrightarrow> pixels s' = pixels s)
       \<and> (round_channel s AND 1 \<noteq> bits ! embedded s \<longrightarrow>
          (\<exists>v'. lsb_moved (round_channel s) v' \<and> pixels s' = write_round_channel s v'))"
  unfolding embed_round_accept(1) [OF assms] round_channel_def write_round_channel_def
    round_position_def
  using lsb_match_moved
  by (auto simp: embed_commit_fields drawn_fields drawn_embedded)

subsection \<open>The values embedding leaves in the buffer\<close>

text \<open>
  C9. Let the input buffer be as \<open>load_image\<close> delivers it, with every channel value
  in \<open>[0, 255]\<close>. After \<open>embed_message_bits\<close>, however the call ends (so also after a
  successful one), every channel value of the buffer is still in \<open>[0, 255]\<close>; every
  channel either has its original value or differs from it by exactly one step of LSB
  matching (0 became 1, 255 became 254, another value moved up or down by 1); the
  fourth (alpha) channel is never changed. A round that accepts a position whose
  channel already has the target bit as its least significant bit leaves the buffer
  as it is, and otherwise it replaces that one channel by such a step.
\<close>

theorem embedding_value_range:
  assumes "loaded_image img" "in_range img"
  shows "in_range (buffer (embed_message_bits img bits pw T f))
       \<and> width (buffer (embed_message_bits img bits pw T f)) = width img
       \<and> height (buffer (embed_message_bits img bits pw T f)) = height img
       \<and> (\<forall>k c. k < width img * height img \<longrightarrow>
            channel_value (buffer (embed_message_bits img bits pw T f)) k c = channel_value img k c \<or>
            lsb_moved (channel_value img k c)
              (channel_value (buffer (embed_message_bits img bits pw T f)) k c))
       \<and> (\<forall>k c. k < width img * height img \<and> 3 \<le> c \<longrightarrow>
            channel_value (buffer (embed_message_bits img bits pw T f)) k c = channel_value img k c)
       \<and> (loaded_image (pixels s) \<and> embedded s < length bits \<and>
          embed_step bits T 3 (capacity (pixels s)) s = Inr s' \<and> embedded s' \<noteq> embedded s \<longrightarrow>
           (round_channel s AND 1 = bits ! embedded s \<longrightarrow> pixels s' = pixels s)
         \<and> (round_channel s AND 1 \<noteq> bits ! embedded s \<longrightarrow>
            (\<exists>v'. lsb_moved (round_channel s) v' \<and> pixels s' = write_round_channel s v')))"
  using embed_call_values [OF assms(1), of bits pw T f] assms(2)
    embed_round_write [of s bits T s']
  by blast

lemma zero3_facts: "capacity zero3 = 27" "in_range zero3" "width zero3 = 3" "height zero3 = 3"
  by (simp_all add: eval_defs zero3_def)

lemma zero3_embed_one:
  "embed_step [1] 0 3 27 (embed_start zero3 [120]) =
     Inr \<lparr>pixels = set_channel zero3 7 0 1, prng = \<lparr>state = 3572822865, draws = 1\<rparr>,
          used_positions = {21}, attempts = 1, embedded = 1\<rparr>"
  by (simp add: eval_defs zero3_def set_channel_def)

theorem embedding_value_range_witness:
  "loaded_image zero3 \<and> in_range zero3
   \<and> in_range (buffer (embed_message_bits zero3 [1] [120] 0 4))
   \<and> (\<exists>s'. embed_step [1] 0 3 (capacity (pixels (embed_start zero3 [120])))
              (embed_start zero3 [120]) = Inr s'
         \<and> embedded s' \<noteq> embedded (embed_start zero3 [120])
         \<and> round_channel (embed_start zero3 [120]) = 0
         \<and> lsb_moved 0 1 \<and> pixels s' = write_round_channel (embed_start zero3 [120]) 1)"
proof -
  let ?s = "embed_start zero3 [120]"
  let ?s' = "\<lparr>pixels = set_channel zero3 7 0 1, prng = \<lparr>state = 3572822865, draws = 1\<rparr>,
      used_positions = {21}, attempts = 1, embedded = 1\<rparr>"
  have p: "pixels ?s = zero3" "embedded ?s = 0" by (simp_all add: embed_start_def)
  have l: "loaded_image (pixels ?s)" unfolding p by (rule zero3_loaded)
  have c: "capacity (pixels ?s) = 27" unfolding p by (rule zero3_facts)
  have e: "embedded ?s < length [1::int]" by (simp add: p)
  have st: "embed_step [1] 0 3 (capacity (pixels ?s)) ?s = Inr ?s'"
    unfolding c by (rule zero3_embed_one)
  have ne: "embedded ?s' \<noteq> embedded ?s" by (simp add: p)
  have rp: "round_position ?s = 21"
    by (simp add: round_position_def c zero3_first_position)
  have rc: "round_channel ?s = 0"
    by (simp add: round_channel_def rp p) (simp add: eval_defs zero3_def)
  have w: "write_round_channel ?s 1 = set_channel zero3 7 0 1"
    by (simp add: write_round_channel_def rp p)
  note u = embedding_value_range [OF zero3_loaded zero3_facts(2), where bits = "[1]"
      and pw = "[120]" and T = 0 and f = 4 and s = ?s and s' = ?s']
  have m: "lsb_moved 0 1" by (simp add: lsb_moved_def)
  from u have "in_range (buffer (embed_message_bits zero3 [1] [120] 0 4))" by blast
  then show ?thesis
    using zero3_loaded zero3_facts(2) st ne rc m w by auto
qed


subsection \<open>Embedding followed by extraction\<close>



























text \<open>
  Buffers narrower than 3 pixels are outside the statement above: there the clamp
  of lines 60 and 61 yields a centre whose neighbour lies outside the image, and
  the first round raises \<open>IndexError\<close>. On the 1 by 6 image of zeros (capacity 18):
\<close>

lemma narrow6_facts: "loaded_image narrow6" "capacity narrow6 = 18"
  by (simp_all add: eval_defs narrow6_def)

lemma narrow6_index_error:
  "embed_message_bits narrow6 hi_bits [120] 0 4 =
    \<lparr>outcome = Some IndexError, buffer = narrow6, n_draws = 1, n_attempts = 1,
     positions = {}, n_embedded = 0\<rparr>"
  by (simp add: eval_defs hi_bits_eval narrow6_def)

end
